theory Spec2Isabelle
  imports Main "HOL-Library.Word" "HOL-Library.Sublist"
begin

unbundle bit_operations_syntax

section \<open>Common.h: frames and connection states\<close>

type_synonym byte = "8 word"

text \<open>\<^verbatim>\<open>struct VideoFrame\<close>: pixel data, dimensions and a timestamp.\<close>

record VideoFrame =
  data :: "byte list"
  width :: int
  height :: int
  timestamp :: int

text \<open>\<^verbatim>\<open>enum class ConnectionState\<close>.\<close>

datatype ConnectionState = Disconnected | Connecting | Connected | Error

section \<open>FrameBuffer.cpp\<close>

text \<open>
  \<^verbatim>\<open>std::queue<VideoFrame> m_frames\<close> is a list whose head is the queue's front (the
  oldest frame) and whose last element is the queue's back (the newest).
  \<^verbatim>\<open>size_t m_maxFrames\<close> is the capacity given to the constructor. Every member function
  takes \<^verbatim>\<open>m_mutex\<close> for its whole body, so the operations of several threads happen one
  after the other; a history of the buffer is a list of operations.
\<close>

record FrameBuffer =
  m_frames :: "VideoFrame list"
  m_maxFrames :: nat

text \<open>
  Where the C++ leaves the function other than by returning, the model returns a fault:
  \<^item> \<^verbatim>\<open>std::queue::pop\<close> on an empty queue has undefined behaviour;
  \<^item> \<^verbatim>\<open>std::string::resize\<close> beyond \<^verbatim>\<open>max_size()\<close> throws \<^verbatim>\<open>std::length_error\<close>;
  \<^item> \<^verbatim>\<open>std::stoi\<close> on digits beyond the range of \<^verbatim>\<open>int\<close> throws
    \<^verbatim>\<open>std::out_of_range\<close>;
  \<^item> assigning to a \<^verbatim>\<open>std::thread\<close> that is joinable calls \<^verbatim>\<open>std::terminate\<close>.
  No exception is caught in the repository.
\<close>

datatype fault = PopOnEmptyQueue | LengthError | OutOfRange | Terminate

definition FrameBuffer_new :: "nat \<Rightarrow> FrameBuffer" where
  "FrameBuffer_new maxFrames = \<lparr>m_frames = [], m_maxFrames = maxFrames\<rparr>"

text \<open>
  The loop of \<^verbatim>\<open>Push\<close>: \<^verbatim>\<open>while (m_frames.size() >= m_maxFrames) m_frames.pop();\<close>.
  Each round tests the guard on the current queue and pops its front.
\<close>

fun Push_evict :: "nat \<Rightarrow> VideoFrame list \<Rightarrow> fault + VideoFrame list" where
  "Push_evict maxFrames [] = (if 0 \<ge> maxFrames then Inl PopOnEmptyQueue else Inr [])"
| "Push_evict maxFrames (f # fs) =
     (if length (f # fs) \<ge> maxFrames then Push_evict maxFrames fs else Inr (f # fs))"

definition Push :: "VideoFrame \<Rightarrow> FrameBuffer \<Rightarrow> fault + FrameBuffer" where
  "Push frame fb =
     (case Push_evict (m_maxFrames fb) (m_frames fb) of
        Inl e \<Rightarrow> Inl e
      | Inr q \<Rightarrow> Inr (fb\<lparr>m_frames := q @ [frame]\<rparr>))"

text \<open>
  \<^verbatim>\<open>Pop\<close> waits on the condition variable until the queue is non-empty or the timeout
  has passed; \<^verbatim>\<open>wait_for\<close> returns the value of the predicate. In a history of
  operations the wait has ended: the queue is non-empty (front moved out and popped,
  \<^verbatim>\<open>true\<close>) or still empty (\<^verbatim>\<open>false\<close>, nothing changed).
\<close>

definition Pop :: "int \<Rightarrow> FrameBuffer \<Rightarrow> VideoFrame option \<times> FrameBuffer" where
  "Pop timeoutMs fb =
     (case m_frames fb of
        [] \<Rightarrow> (None, fb)
      | f # fs \<Rightarrow> (Some f, fb\<lparr>m_frames := fs\<rparr>))"

definition Peek :: "FrameBuffer \<Rightarrow> VideoFrame option" where
  "Peek fb = (if m_frames fb = [] then None else Some (last (m_frames fb)))"

fun Clear_loop :: "VideoFrame list \<Rightarrow> VideoFrame list" where
  "Clear_loop [] = []"
| "Clear_loop (f # fs) = Clear_loop fs"

definition Clear :: "FrameBuffer \<Rightarrow> FrameBuffer" where
  "Clear fb = fb\<lparr>m_frames := Clear_loop (m_frames fb)\<rparr>"

definition Empty :: "FrameBuffer \<Rightarrow> bool" where
  "Empty fb = (m_frames fb = [])"

definition Size :: "FrameBuffer \<Rightarrow> nat" where
  "Size fb = length (m_frames fb)"

text \<open>
  A history: the calls made on one buffer, in the order the mutex admitted them. Running
  it collects the frames that the successful \<^verbatim>\<open>Pop\<close> calls returned, and stops at the
  first fault.
\<close>

datatype buffer_op = OpPush VideoFrame | OpPop int | OpPeek | OpClear

fun run_ops :: "buffer_op list \<Rightarrow> FrameBuffer \<Rightarrow> VideoFrame list
    \<Rightarrow> fault + (FrameBuffer \<times> VideoFrame list)" where
  "run_ops [] fb popped = Inr (fb, popped)"
| "run_ops (OpPush f # ops) fb popped =
     (case Push f fb of Inl e \<Rightarrow> Inl e | Inr fb' \<Rightarrow> run_ops ops fb' popped)"
| "run_ops (OpPop t # ops) fb popped =
     (case Pop t fb of
        (None, fb') \<Rightarrow> run_ops ops fb' popped
      | (Some f, fb') \<Rightarrow> run_ops ops fb' (popped @ [f]))"
| "run_ops (OpPeek # ops) fb popped = run_ops ops fb popped"
| "run_ops (OpClear # ops) fb popped = run_ops ops (Clear fb) popped"

text \<open>The frames a history pushes, in push order.\<close>

fun pushed :: "buffer_op list \<Rightarrow> VideoFrame list" where
  "pushed [] = []"
| "pushed (OpPush f # ops) = f # pushed ops"
| "pushed (_ # ops) = pushed ops"


text \<open>\<^verbatim>\<open>VideoFrame()\<close>: the default constructor.\<close>

definition VideoFrame_default :: VideoFrame where
  "VideoFrame_default = \<lparr>data = [], width = 0, height = 0, timestamp = 0\<rparr>"

text \<open>
  What a history leaves behind, against the frames pushed so far: the queue holds the
  pushed frames from some position \<open>k\<close> on, in push order, and the frames popped so far
  were taken, in push order, from the frames before \<open>k\<close>.
\<close>

definition resident :: "VideoFrame list \<Rightarrow> FrameBuffer \<Rightarrow> VideoFrame list \<Rightarrow> bool" where
  "resident hist fb popped \<longleftrightarrow>
     (\<exists>k \<le> length hist. m_frames fb = drop k hist \<and> subseq popped (take k hist))"

section \<open>The transport: a Winsock stream socket\<close>

text \<open>
  The socket calls belong to the operating system. Their model is the least that
  \<^verbatim>\<open>recv\<close> and \<^verbatim>\<open>send\<close> promise on a blocking stream socket. The peer's bytes
  arrive in segments; \<^verbatim>\<open>recv(s, buf, len, 0)\<close> hands over at most \<^verbatim>\<open>len\<close> bytes of the
  segment at the head and returns their count, returns 0 once the peer has closed (no
  segment left) and \<^verbatim>\<open>SOCKET_ERROR\<close> (-1) on an error or an invalid handle.
  \<^verbatim>\<open>send(s, buf, len, 0)\<close> writes the first \<^verbatim>\<open>len\<close> bytes of the buffer and returns
  \<^verbatim>\<open>len\<close>, or fails with \<^verbatim>\<open>SOCKET_ERROR\<close>. A \<^verbatim>\<open>SOCKET\<close> handle is a
  \<open>socket option\<close>; \<^verbatim>\<open>INVALID_SOCKET\<close> is \<open>None\<close>.
\<close>

datatype event = Seg "byte list" | RecvError

record socket =
  incoming :: "event list"
  can_send :: bool
  sent :: "byte list list"

definition recv :: "socket option \<Rightarrow> int \<Rightarrow> int \<times> byte list \<times> socket option" where
  "recv h len =
     (case h of
        None \<Rightarrow> (- 1, [], None)
      | Some s \<Rightarrow>
          if len < 0 then (- 1, [], Some s)
          else (case incoming s of
                  [] \<Rightarrow> (0, [], Some s)
                | RecvError # es \<Rightarrow> (- 1, [], Some (s\<lparr>incoming := es\<rparr>))
                | Seg bs # es \<Rightarrow>
                    (let k = min (nat len) (length bs)
                     in (int k, take k bs,
                         Some (s\<lparr>incoming := (if k < length bs then Seg (drop k bs) # es else es)\<rparr>)))))"

definition send :: "socket option \<Rightarrow> byte list \<Rightarrow> int \<Rightarrow> int \<times> socket option" where
  "send h buf len =
     (case h of
        None \<Rightarrow> (- 1, None)
      | Some s \<Rightarrow>
          if len < 0 \<or> \<not> can_send s then (- 1, Some s)
          else (len, Some (s\<lparr>sent := sent s @ [take (nat len) buf]\<rparr>)))"

text \<open>
  A stream that arrives in segments \<open>chunks\<close>: what is left of them after \<open>k\<close> bytes
  have been read.
\<close>

fun drain :: "nat \<Rightarrow> byte list list \<Rightarrow> byte list list" where
  "drain k [] = []"
| "drain k (c # cs) =
     (if k = 0 then c # cs
      else if k < length c then drop k c # cs
      else drain (k - length c) cs)"

text \<open>
  The segments \<open>chunks\<close> deliver \<open>frame\<close> so that no read of its header is short: no
  segment is empty, the two header bytes come in one segment, and so do the bytes that
  follow the first byte of \<open>length_field\<close>, if there are any. The payload may be cut
  anywhere.
\<close>

definition arrives_whole :: "byte list list \<Rightarrow> byte list \<Rightarrow> byte list \<Rightarrow> bool" where
  "arrives_whole chunks length_field frame \<longleftrightarrow>
     list_all (\<lambda>c. c \<noteq> []) chunks \<and> concat chunks = frame
     \<and> 2 \<le> length (hd chunks)
     \<and> (length length_field = 1 \<or> length length_field - 1 \<le> length (hd (drain 2 chunks)))"

text \<open>
  What is left of the segment at the head after a read: the bytes not yet handed over, or
  the next segment when all of them were.
\<close>

definition rest_of :: "byte list \<Rightarrow> event list \<Rightarrow> event list" where
  "rest_of bs es = (if bs = [] then es else Seg bs # es)"

text \<open>
  \<^verbatim>\<open>(int)\<close> applied to a \<^verbatim>\<open>size_t\<close> or \<^verbatim>\<open>uint64_t\<close> value: the low 32 bits, read as
  two's complement.
\<close>

definition int_cast :: "nat \<Rightarrow> int" where
  "int_cast n = sint (word_of_nat n :: 32 word)"

section \<open>SignalingClient.cpp: the frame codec\<close>

subsection \<open>ReadFrame\<close>

text \<open>
  \<^verbatim>\<open>recv(m_socket, &payload[totalReceived], n, 0)\<close> stores the received bytes into the
  payload buffer from offset \<^verbatim>\<open>totalReceived\<close> on.
\<close>

definition store :: "byte list \<Rightarrow> nat \<Rightarrow> byte list \<Rightarrow> byte list" where
  "store buf off bs = take off buf @ bs @ drop (off + length bs) buf"

text \<open>
  The payload loop:
  \<^verbatim>\<open>while (totalReceived < payloadLen) { received = recv(...); if (received <= 0) break;
  totalReceived += received; }\<close> followed by \<^verbatim>\<open>return payload;\<close>.
\<close>

function ReadFrame_loop :: "nat \<Rightarrow> nat \<Rightarrow> byte list \<Rightarrow> socket option
    \<Rightarrow> byte list \<times> socket option" where
  "ReadFrame_loop payloadLen totalReceived payload h =
     (if totalReceived < payloadLen then
        (case recv h (int_cast (payloadLen - totalReceived)) of
           (received, bs, h') \<Rightarrow>
             if received \<le> 0 then (payload, h')
             else ReadFrame_loop payloadLen (totalReceived + nat received)
                    (store payload totalReceived bs) h')
      else (payload, h))"
  by pat_completeness auto
termination
  by (relation "measure (\<lambda>(payloadLen, totalReceived, payload, h). payloadLen - totalReceived)")
    auto

declare ReadFrame_loop.simps [simp del]

text \<open>
  \<^verbatim>\<open>payload.resize(payloadLen)\<close> fills the string with \<^verbatim>\<open>payloadLen\<close> zero bytes and
  throws when \<^verbatim>\<open>payloadLen\<close> exceeds \<^verbatim>\<open>max_size()\<close>, a constant of the standard
  library that the model takes as the parameter \<open>max_size\<close>. \<^verbatim>\<open>size_t\<close> is 64 bits
  wide, as \<^verbatim>\<open>uint64_t payloadLen\<close> is, so no conversion between them changes a value.
\<close>

definition ReadFrame_payload :: "nat \<Rightarrow> 64 word \<Rightarrow> socket option
    \<Rightarrow> fault + (byte list \<times> socket option)" where
  "ReadFrame_payload max_size payloadLen h =
     (if unat payloadLen > max_size then Inl LengthError
      else Inr (ReadFrame_loop (unat payloadLen) 0 (replicate (unat payloadLen) 0) h))"

text \<open>
  \<^verbatim>\<open>payloadLen = 0; for (int i = 0; i < 8; i++) payloadLen = (payloadLen << 8) | len64[i];\<close>
\<close>

definition ReadFrame_len64 :: "byte list \<Rightarrow> 64 word" where
  "ReadFrame_len64 len64 = fold (\<lambda>b payloadLen. push_bit 8 payloadLen OR ucast b) len64 0"

text \<open>
  \<^verbatim>\<open>(len16[0] << 8) | len16[1]\<close> is computed in \<^verbatim>\<open>int\<close> and then converted to
  \<^verbatim>\<open>uint64_t\<close>.
\<close>

definition ReadFrame_len16 :: "byte list \<Rightarrow> 64 word" where
  "ReadFrame_len16 len16 =
     ucast (push_bit 8 (ucast (len16 ! 0) :: 32 word) OR ucast (len16 ! 1))"

definition ReadFrame :: "nat \<Rightarrow> socket option \<Rightarrow> fault + (byte list \<times> socket option)" where
  "ReadFrame max_size h =
     (case recv h 2 of
        (received, header, h1) \<Rightarrow>
          if received \<noteq> 2 then Inr ([], h1)
          else
            let payloadLen = (ucast (header ! 1 AND 0x7F) :: 64 word) in
            if payloadLen = 126 then
              (case recv h1 2 of
                 (r, len16, h2) \<Rightarrow>
                   if r \<noteq> 2 then Inr ([], h2)
                   else ReadFrame_payload max_size (ReadFrame_len16 len16) h2)
            else if payloadLen = 127 then
              (case recv h1 8 of
                 (r, len64, h2) \<Rightarrow>
                   if r \<noteq> 8 then Inr ([], h2)
                   else ReadFrame_payload max_size (ReadFrame_len64 len64) h2)
            else ReadFrame_payload max_size payloadLen h1)"

subsection \<open>WriteFrame\<close>

text \<open>\<^verbatim>\<open>unsigned char mask[4] = {0x12, 0x34, 0x56, 0x78};\<close>\<close>

definition mask_key :: "byte list" where
  "mask_key = [0x12, 0x34, 0x56, 0x78]"

text \<open>
  \<^verbatim>\<open>for (int i = 7; i >= 0; i--) frame.push_back((data.size() >> (i * 8)) & 0xFF);\<close>
  The first argument counts the rounds still to run: round \<open>Suc i\<close> pushes the byte of
  index \<open>i\<close>.
\<close>

fun WriteFrame_len64 :: "nat \<Rightarrow> 64 word \<Rightarrow> byte list \<Rightarrow> byte list" where
  "WriteFrame_len64 0 data_size frame = frame"
| "WriteFrame_len64 (Suc i) data_size frame =
     WriteFrame_len64 i data_size (frame @ [ucast (drop_bit (i * 8) data_size AND 0xFF)])"

text \<open>
  \<^verbatim>\<open>for (size_t i = 0; i < data.size(); i++) frame.push_back(data[i] ^ mask[i % 4]);\<close>
\<close>

function WriteFrame_mask :: "byte list \<Rightarrow> nat \<Rightarrow> byte list \<Rightarrow> byte list" where
  "WriteFrame_mask dat i frame =
     (if i < length dat
      then WriteFrame_mask dat (i + 1) (frame @ [dat ! i XOR mask_key ! (i mod 4)])
      else frame)"
  by pat_completeness auto
termination
  by (relation "measure (\<lambda>(dat, i, frame). length dat - i)") auto

declare WriteFrame_mask.simps [simp del]

text \<open>
  The frame vector that \<^verbatim>\<open>WriteFrame\<close> builds. \<^verbatim>\<open>data.size()\<close> is a \<^verbatim>\<open>size_t\<close>,
  64 bits wide.
\<close>

definition WriteFrame_frame :: "byte list \<Rightarrow> byte list" where
  "WriteFrame_frame dat =
     (let data_size = (word_of_nat (length dat) :: 64 word);
          frame = [0x81];
          frame =
            (if data_size \<le> 125 then frame @ [0x80 OR ucast data_size]
             else if data_size \<le> 65535 then
               frame @ [0x80 OR 126, ucast (drop_bit 8 data_size AND 0xFF), ucast (data_size AND 0xFF)]
             else WriteFrame_len64 8 data_size (frame @ [0x80 OR 127]));
          frame = frame @ mask_key
      in WriteFrame_mask dat 0 frame)"

text \<open>
  \<^verbatim>\<open>return send(m_socket, (const char *)frame.data(), (int)frame.size(), 0) != SOCKET_ERROR;\<close>
\<close>

definition WriteFrame :: "byte list \<Rightarrow> socket option \<Rightarrow> bool \<times> socket option" where
  "WriteFrame dat h =
     (let frame = WriteFrame_frame dat
      in case send h frame (int_cast (length frame)) of (r, h') \<Rightarrow> (r \<noteq> - 1, h'))"

subsection \<open>The frame format in the words of the specification\<close>

text \<open>
  A big-endian field of \<open>k\<close> bytes holding \<open>n\<close>: the byte of weight \<open>256 ^ i\<close> is
  \<open>n div 256 ^ i mod 256\<close>, and the byte of the highest weight comes first.
\<close>

definition spec_big_endian :: "nat \<Rightarrow> nat \<Rightarrow> byte list" where
  "spec_big_endian k n = map (\<lambda>i. word_of_nat (n div 256 ^ i mod 256)) (rev [0..<k])"

text \<open>
  The length field: the length itself in 7 bits when it is at most 125; the escape value
  126 and a 2-byte big-endian length when it is at most 65535; otherwise the escape value
  127 and an 8-byte big-endian length. The top bit of the first byte says that the
  payload is masked.
\<close>

definition spec_length_field :: "bool \<Rightarrow> nat \<Rightarrow> byte list" where
  "spec_length_field masked n =
     (let top = (if masked then 0x80 else 0x00) in
      if n \<le> 125 then [top OR word_of_nat n]
      else if n \<le> 65535 then [top OR 126] @ spec_big_endian 2 n
      else [top OR 127] @ spec_big_endian 8 n)"

text \<open>Byte \<open>i\<close> of the payload XORed with the key byte at \<open>i mod 4\<close>.\<close>

definition spec_masked :: "byte list \<Rightarrow> byte list \<Rightarrow> byte list" where
  "spec_masked key payload = map (\<lambda>i. payload ! i XOR key ! (i mod 4)) [0..<length payload]"

text \<open>
  Client to server: byte 0x81, the length field with the mask bit, the 4-byte key, the
  masked payload. Server to client: the same length encoding, unmasked.
\<close>

definition spec_Encode :: "byte list \<Rightarrow> byte list \<Rightarrow> byte list" where
  "spec_Encode key payload =
     [0x81] @ spec_length_field True (length payload) @ key @ spec_masked key payload"

definition spec_server_frame :: "byte list \<Rightarrow> byte list" where
  "spec_server_frame payload = [0x81] @ spec_length_field False (length payload) @ payload"

section \<open>SignalingClient.cpp: handshake and connection\<close>

text \<open>
  The members of \<^verbatim>\<open>class SignalingClient\<close> that \<^verbatim>\<open>Connect\<close> touches.
  \<open>m_thread\<close> says whether the receive thread has been started. A callback is user
  code: \<open>m_stateCallback\<close> says whether one is registered and \<open>state_calls\<close> lists
  the arguments of its calls. \<open>state_trace\<close> lists every value written to \<open>m_state\<close>,
  in order. \<open>open_sockets\<close> counts the sockets that the client has obtained from
  \<^verbatim>\<open>socket\<close> and not yet given to \<^verbatim>\<open>closesocket\<close>: a socket that is dropped
  without being closed stays counted.
\<close>

record SignalingClient =
  m_socket :: "socket option"
  m_thread :: bool
  m_running :: bool
  m_state :: ConnectionState
  m_stateCallback :: bool
  m_serverUrl :: string
  m_room :: string
  state_calls :: "ConnectionState list"
  state_trace :: "ConnectionState list"
  open_sockets :: nat

text \<open>The member initialisers of the class: the initial state.\<close>

definition SignalingClient_new :: SignalingClient where
  "SignalingClient_new =
     \<lparr>m_socket = None, m_thread = False, m_running = False, m_state = Disconnected,
      m_stateCallback = False, m_serverUrl = [], m_room = [],
      state_calls = [], state_trace = [], open_sockets = 0\<rparr>"

definition SetStateCallback :: "SignalingClient \<Rightarrow> SignalingClient" where
  "SetStateCallback st = st\<lparr>m_stateCallback := True\<rparr>"

definition SetState :: "ConnectionState \<Rightarrow> SignalingClient \<Rightarrow> SignalingClient" where
  "SetState state st =
     (let st = st\<lparr>m_state := state, state_trace := state_trace st @ [state]\<rparr>
      in if m_stateCallback st then st\<lparr>state_calls := state_calls st @ [state]\<rparr> else st)"

subsection \<open>ConnectSocket\<close>

text \<open>
  \<^verbatim>\<open>m_socket = socket(...)\<close> when the call succeeds, and \<^verbatim>\<open>closesocket(m_socket)\<close>,
  which closes the socket that \<open>m_socket\<close> names and does nothing on
  \<^verbatim>\<open>INVALID_SOCKET\<close>; the member itself is overwritten by the statement that follows
  in the source.
\<close>

definition socket_created :: "socket \<Rightarrow> SignalingClient \<Rightarrow> SignalingClient" where
  "socket_created s st = st\<lparr>m_socket := Some s, open_sockets := open_sockets st + 1\<rparr>"

definition closesocket :: "SignalingClient \<Rightarrow> SignalingClient" where
  "closesocket st =
     (case m_socket st of
        None \<Rightarrow> st
      | Some s \<Rightarrow> st\<lparr>open_sockets := open_sockets st - 1\<rparr>)"

text \<open>
  What the network does with a host and a port, in the order of the calls of
  \<^verbatim>\<open>ConnectSocket\<close>: \<^verbatim>\<open>getaddrinfo\<close> fails; \<^verbatim>\<open>socket\<close> returns
  \<^verbatim>\<open>INVALID_SOCKET\<close>; \<^verbatim>\<open>socket\<close> returns a socket and \<^verbatim>\<open>connect\<close> fails on it;
  or \<^verbatim>\<open>socket\<close> returns a socket and the connection stands.
\<close>

datatype connect_result = ResolveFails | SocketFails | ConnectFails socket | Connects socket

definition ConnectSocket :: "(string \<Rightarrow> int \<Rightarrow> connect_result) \<Rightarrow> string \<Rightarrow> int
    \<Rightarrow> SignalingClient \<Rightarrow> bool \<times> SignalingClient" where
  "ConnectSocket net host port st =
     (case net host port of
        ResolveFails \<Rightarrow> (False, st)
      | SocketFails \<Rightarrow> (False, st\<lparr>m_socket := None\<rparr>)
      | ConnectFails s \<Rightarrow> (False, (closesocket (socket_created s st))\<lparr>m_socket := None\<rparr>)
      | Connects s \<Rightarrow> (True, socket_created s st))"

subsection \<open>PerformHandshake\<close>

definition to_bytes :: "string \<Rightarrow> byte list" where
  "to_bytes str = map of_char str"

definition CRLF :: string where
  "CRLF = [CHR 0x0D, CHR 0x0A]"

definition base64_chars :: string where
  "base64_chars = ''ABCDEFGHIJKLMNOPQRSTUVWXYZabcdefghijklmnopqrstuvwxyz0123456789+/''"

text \<open>
  The encoding loop: \<^verbatim>\<open>for (size_t i = 0; i < key.size(); i += 3)\<close>, with
  \<^verbatim>\<open>unsigned int n\<close>.
\<close>

function base64_loop :: "byte list \<Rightarrow> nat \<Rightarrow> string \<Rightarrow> string" where
  "base64_loop key i encodedKey =
     (if i < length key then
        (let n = (push_bit 16 (ucast (key ! i)) :: 32 word);
             n = (if i + 1 < length key then n OR push_bit 8 (ucast (key ! (i + 1))) else n);
             n = (if i + 2 < length key then n OR ucast (key ! (i + 2)) else n);
             encodedKey = encodedKey @ [base64_chars ! unat (drop_bit 18 n AND 0x3F)];
             encodedKey = encodedKey @ [base64_chars ! unat (drop_bit 12 n AND 0x3F)];
             encodedKey = encodedKey @
               [if i + 1 < length key then base64_chars ! unat (drop_bit 6 n AND 0x3F)
                else CHR ''=''];
             encodedKey = encodedKey @
               [if i + 2 < length key then base64_chars ! unat (n AND 0x3F) else CHR ''='']
         in base64_loop key (i + 3) encodedKey)
      else encodedKey)"
  by pat_completeness auto
termination
  by (relation "measure (\<lambda>(key, i, encodedKey). length key - i)") auto

declare base64_loop.simps [simp del]

text \<open>The request that \<^verbatim>\<open>PerformHandshake\<close> streams into \<^verbatim>\<open>request\<close>.\<close>

definition handshake_request :: "string \<Rightarrow> string \<Rightarrow> string" where
  "handshake_request path encodedKey =
     ''GET '' @ path @ '' HTTP/1.1'' @ CRLF @
     ''Host: localhost'' @ CRLF @
     ''Upgrade: websocket'' @ CRLF @
     ''Connection: Upgrade'' @ CRLF @
     ''Sec-WebSocket-Key: '' @ encodedKey @ CRLF @
     ''Sec-WebSocket-Version: 13'' @ CRLF @
     CRLF"

text \<open>
  \<^verbatim>\<open>strstr(buffer, "101") != nullptr\<close>. \<^verbatim>\<open>strstr\<close> reads its first argument as a C
  string, up to the first zero byte (\<open>c_str\<close>), and looks at each position for the
  second one.
\<close>

definition c_str :: "byte list \<Rightarrow> byte list" where
  "c_str buffer = takeWhile (\<lambda>b. b \<noteq> 0) buffer"

fun strstr :: "byte list \<Rightarrow> byte list \<Rightarrow> bool" where
  "strstr [] needle = (needle = [])"
| "strstr (c # cs) needle = (if prefix needle (c # cs) then True else strstr cs needle)"

text \<open>
  \<open>rng i\<close> is draw \<open>i\<close> of \<^verbatim>\<open>dis(gen)\<close>, a value from 0 to 255. The buffer holds 1024
  bytes; \<^verbatim>\<open>recv\<close> may fill 1023 of them, and \<^verbatim>\<open>buffer[received] = '\0'\<close> ends the C
  string after the bytes received.
\<close>

definition PerformHandshake :: "(nat \<Rightarrow> byte) \<Rightarrow> string \<Rightarrow> SignalingClient
    \<Rightarrow> bool \<times> SignalingClient" where
  "PerformHandshake rng path st =
     (let key = map rng [0..<16];
          encodedKey = base64_loop key 0 [];
          requestStr = handshake_request path encodedKey
      in case send (m_socket st) (to_bytes requestStr) (int_cast (length requestStr)) of
           (r, h) \<Rightarrow>
             if r = - 1 then (False, st\<lparr>m_socket := h\<rparr>)
             else (case recv h 1023 of
                     (received, buffer, h') \<Rightarrow>
                       if received \<le> 0 then (False, st\<lparr>m_socket := h'\<rparr>)
                       else (strstr (c_str buffer) (to_bytes ''101''), st\<lparr>m_socket := h'\<rparr>)))"

subsection \<open>Connect\<close>

text \<open>
  \<^verbatim>\<open>std::regex_match(url, match, urlRegex)\<close> with the pattern
  \<^verbatim>\<open>ws://([^:/]+):?(\d+)?(/?.*)?\<close>. The whole address has to match. Every quantifier
  is greedy: group 1 takes the characters up to the first \<^verbatim>\<open>:\<close> or \<^verbatim>\<open>/\<close> and needs
  one at least; \<^verbatim>\<open>:?\<close> takes a colon that follows; group 2 takes the digits that
  follow, and takes no part in the match when there is none; group 3 takes the rest,
  which \<^verbatim>\<open>.\<close> matches unless it holds a line terminator. Giving characters back
  never turns a failure into a match, since the rest would still hold the line
  terminator. The result holds the three groups, \<open>None\<close> for a group that took no
  part or is empty.
\<close>

definition is_digit :: "char \<Rightarrow> bool" where
  "is_digit c \<longleftrightarrow> c \<in> set ''0123456789''"

definition is_line_terminator :: "char \<Rightarrow> bool" where
  "is_line_terminator c \<longleftrightarrow> c = CHR 0x0A \<or> c = CHR 0x0D"

definition is_host_char :: "char \<Rightarrow> bool" where
  "is_host_char c \<longleftrightarrow> c \<noteq> CHR '':'' \<and> c \<noteq> CHR ''/''"

definition urlRegex_match :: "string \<Rightarrow> (string \<times> string option \<times> string option) option" where
  "urlRegex_match url =
     (if \<not> prefix ''ws://'' url then None
      else
        let r = drop 5 url;
            g1 = takeWhile is_host_char r;
            r = dropWhile is_host_char r;
            r = (case r of [] \<Rightarrow> r | c # cs \<Rightarrow> if c = CHR '':'' then cs else r);
            g2 = takeWhile is_digit r;
            g3 = dropWhile is_digit r
        in if g1 = [] \<or> list_ex is_line_terminator g3 then None
           else Some (g1, if g2 = [] then None else Some g2, if g3 = [] then None else Some g3))"

text \<open>
  \<^verbatim>\<open>std::stoi\<close> on a string of digits: the decimal value, or
  \<^verbatim>\<open>std::out_of_range\<close> when it does not fit \<^verbatim>\<open>int\<close>.
\<close>

definition digit_value :: "char \<Rightarrow> int" where
  "digit_value c = of_char c - 48"

definition stoi :: "string \<Rightarrow> fault + int" where
  "stoi digits =
     (let v = fold (\<lambda>c acc. acc * 10 + digit_value c) digits 0
      in if v > 2147483647 then Inl OutOfRange else Inr v)"

text \<open>
  The address parsing at the head of \<^verbatim>\<open>Connect\<close>: the defaults, overwritten by the
  groups that matched.
\<close>

definition parse_url :: "string \<Rightarrow> fault + (string \<times> int \<times> string)" where
  "parse_url url =
     (let host = ''localhost''; port = 8080; path = ''/'' in
      case urlRegex_match url of
        None \<Rightarrow> Inr (host, port, path)
      | Some (g1, g2, g3) \<Rightarrow>
          (case (case g2 of None \<Rightarrow> Inr port | Some digits \<Rightarrow> stoi digits) of
             Inl e \<Rightarrow> Inl e
           | Inr port \<Rightarrow> Inr (g1, port, (case g3 of None \<Rightarrow> path | Some p \<Rightarrow> p))))"

text \<open>
  \<^verbatim>\<open>Connect\<close>. Starting the receive thread sets \<open>m_running\<close> and assigns the new
  thread to \<open>m_thread\<close>, which must not hold a thread already; the thread itself runs
  beside the caller and is no part of the call.
\<close>

definition Connect :: "(string \<Rightarrow> int \<Rightarrow> connect_result) \<Rightarrow> (nat \<Rightarrow> byte)
    \<Rightarrow> string \<Rightarrow> string \<Rightarrow> SignalingClient \<Rightarrow> fault + (bool \<times> SignalingClient)" where
  "Connect net rng url room st =
     (let st = st\<lparr>m_room := room, m_serverUrl := url\<rparr> in
      case parse_url url of
        Inl e \<Rightarrow> Inl e
      | Inr (host, port, path) \<Rightarrow>
          (let path = path @ ''?room='' @ room @ ''&role=receiver'' in
           case ConnectSocket net host port st of
             (False, st) \<Rightarrow> Inr (False, SetState Error st)
           | (True, st) \<Rightarrow>
               (case PerformHandshake rng path st of
                  (False, st) \<Rightarrow>
                    Inr (False, SetState Error ((closesocket st)\<lparr>m_socket := None\<rparr>))
                | (True, st) \<Rightarrow>
                    (let st = (SetState Connected st)\<lparr>m_running := True\<rparr>
                     in if m_thread st then Inl Terminate
                        else Inr (True, st\<lparr>m_thread := True\<rparr>)))))"

subsection \<open>OnMessage\<close>

text \<open>
  \<^verbatim>\<open>OnMessage\<close> has no translation. Its first statement is
  \<^verbatim>\<open>std::regex typeRegex(R"("type"\s*:\s*"([^"]+)") ");\<close>. A raw string literal with an
  empty delimiter ends at the first \<^verbatim>\<open>)"\<close>, which here is the one that follows
  \<^verbatim>\<open>[^"]+\<close>. The literal is therefore the pattern \<^verbatim>\<open>"type"\s*:\s*"([^"]+\<close>, with
  its group left open; the \<^verbatim>\<open>)\<close> after it closes the constructor call, and the
  \<^verbatim>\<open>");\<close> that remains opens an ordinary string literal that the line does not
  close. The statement is not well-formed C++, so the function has no behaviour to embed.
\<close>

subsection \<open>Peers and observations\<close>

text \<open>
  A network that reaches one peer, at \<open>host\<close> and \<open>port\<close>: it accepts the connection,
  accepts what is sent and has \<open>reply\<close> ready as one segment. No other address
  resolves.
\<close>

definition peer_at :: "string \<Rightarrow> int \<Rightarrow> byte list \<Rightarrow> string \<Rightarrow> int \<Rightarrow> connect_result" where
  "peer_at host port reply h p =
     (if h = host \<and> p = port
      then Connects \<lparr>incoming = [Seg reply], can_send = True, sent = []\<rparr>
      else ResolveFails)"

text \<open>
  A network where every address resolves and a socket is made, and the peer refuses the
  connection.
\<close>

definition peer_refusing :: "string \<Rightarrow> int \<Rightarrow> connect_result" where
  "peer_refusing h p = ConnectFails \<lparr>incoming = [], can_send = False, sent = []\<rparr>"

text \<open>The reply of a peer that accepts the upgrade.\<close>

definition reply_101 :: "byte list" where
  "reply_101 = to_bytes (''HTTP/1.1 101 Switching Protocols'' @ CRLF @ CRLF)"

text \<open>
  What a caller and the peer see of a call of \<^verbatim>\<open>Connect\<close>: the return value, the
  values written to \<open>m_state\<close>, and the buffers sent on the socket that the client holds
  afterwards.
\<close>

definition Connect_trace :: "(string \<Rightarrow> int \<Rightarrow> connect_result) \<Rightarrow> (nat \<Rightarrow> byte)
    \<Rightarrow> string \<Rightarrow> string \<Rightarrow> SignalingClient \<Rightarrow> fault + (bool \<times> ConnectionState list)" where
  "Connect_trace net rng url room st =
     (case Connect net rng url room st of
        Inl e \<Rightarrow> Inl e
      | Inr (ok, st') \<Rightarrow> Inr (ok, state_trace st'))"

definition Connect_sent :: "(string \<Rightarrow> int \<Rightarrow> connect_result) \<Rightarrow> (nat \<Rightarrow> byte)
    \<Rightarrow> string \<Rightarrow> string \<Rightarrow> SignalingClient \<Rightarrow> fault + (bool \<times> byte list list)" where
  "Connect_sent net rng url room st =
     (case Connect net rng url room st of
        Inl e \<Rightarrow> Inl e
      | Inr (ok, st') \<Rightarrow> Inr (ok, case m_socket st' of None \<Rightarrow> [] | Some s \<Rightarrow> sent s))"

text \<open>
  What the operating system sees of a call of \<^verbatim>\<open>Connect\<close>: the return value, whether
  the client holds a socket afterwards, and how many sockets it has left open.
\<close>

definition Connect_sockets :: "(string \<Rightarrow> int \<Rightarrow> connect_result) \<Rightarrow> (nat \<Rightarrow> byte)
    \<Rightarrow> string \<Rightarrow> string \<Rightarrow> SignalingClient \<Rightarrow> fault + (bool \<times> bool \<times> nat)" where
  "Connect_sockets net rng url room st =
     (case Connect net rng url room st of
        Inl e \<Rightarrow> Inl e
      | Inr (ok, st') \<Rightarrow> Inr (ok, m_socket st' \<noteq> None, open_sockets st'))"

text \<open>
  Two replies of a peer that refuses the upgrade. The second one carries the characters
  \<^verbatim>\<open>101\<close> in a header field.
\<close>

definition reply_400 :: "byte list" where
  "reply_400 = to_bytes (''HTTP/1.1 400 Bad Request'' @ CRLF @ CRLF)"



section \<open>FrameBuffer: eviction, order and the capacity bound\<close>

text \<open>With capacity 0 the loop empties the queue and then pops the empty queue.\<close>

lemma Push_evict_zero: "Push_evict 0 q = Inl PopOnEmptyQueue"
  by (induction q) auto

lemma Push_evict_drop:
  "Push_evict c q = Inr q' \<Longrightarrow> \<exists>k \<le> length q. q' = drop k q \<and> length q' < c"
proof (induction q)
  case Nil
  then show ?case by (auto split: if_splits)
next
  case (Cons f fs)
  show ?case
  proof (cases "length (f # fs) \<ge> c")
    case True
    with Cons.prems have "Push_evict c fs = Inr q'" by simp
    from Cons.IH [OF this] obtain k where "k \<le> length fs" "q' = drop k fs" "length q' < c"
      by blast
    then show ?thesis by (intro exI [of _ "Suc k"]) simp
  next
    case False
    with Cons.prems show ?thesis by (intro exI [of _ 0]) auto
  qed
qed

lemma Push_evict_room: "length q < c \<Longrightarrow> Push_evict c q = Inr q"
  by (cases q) auto

lemma Push_evict_total:
  "1 \<le> c \<Longrightarrow> \<exists>q'. Push_evict c q = Inr q' \<and> length q' < c"
proof (induction q)
  case Nil
  then show ?case by simp
next
  case (Cons f fs)
  then show ?case by (cases "length (f # fs) \<ge> c") auto
qed

lemma Push_evict_full:
  assumes "1 \<le> c" "length q = c"
  shows "Push_evict c q = Inr (tl q)"
proof (cases q)
  case Nil
  with assms show ?thesis by simp
next
  case (Cons f fs)
  with assms have "length fs < c" by simp
  then have "Push_evict c fs = Inr fs" by (rule Push_evict_room)
  with Cons assms show ?thesis by simp
qed

lemma Push_full_evicts_oldest:
  assumes "1 \<le> m_maxFrames fb" "length (m_frames fb) = m_maxFrames fb"
  shows "Push f fb = Inr (fb\<lparr>m_frames := tl (m_frames fb) @ [f]\<rparr>)"
  using Push_evict_full [OF assms] by (simp add: Push_def)

lemma Push_total:
  assumes "1 \<le> m_maxFrames fb"
  shows "\<exists>fb'. Push f fb = Inr fb' \<and> m_maxFrames fb' = m_maxFrames fb
           \<and> length (m_frames fb') \<le> m_maxFrames fb"
proof -
  from Push_evict_total [OF assms, of "m_frames fb"] obtain q'
    where "Push_evict (m_maxFrames fb) (m_frames fb) = Inr q'" "length q' < m_maxFrames fb"
    by blast
  then show ?thesis by (simp add: Push_def)
qed

lemma Clear_loop_nil: "Clear_loop q = []"
  by (induction q) auto

lemma run_ops_total:
  "1 \<le> m_maxFrames fb \<Longrightarrow> length (m_frames fb) \<le> m_maxFrames fb
     \<Longrightarrow> \<exists>fb' popped'. run_ops ops fb popped = Inr (fb', popped')
           \<and> m_maxFrames fb' = m_maxFrames fb \<and> length (m_frames fb') \<le> m_maxFrames fb"
proof (induction ops fb popped rule: run_ops.induct)
  case (1 fb popped)
  then show ?case by simp
next
  case (2 f ops fb popped)
  from Push_total [OF "2.prems"(1), of f] obtain fb1 where
    p: "Push f fb = Inr fb1" "m_maxFrames fb1 = m_maxFrames fb"
       "length (m_frames fb1) \<le> m_maxFrames fb" by blast
  from "2.IH" [OF p(1)] p "2.prems" show ?case by simp
next
  case (3 t ops fb popped)
  show ?case
  proof (cases "m_frames fb")
    case Nil
    then have e: "Pop t fb = (None, fb)" by (simp add: Pop_def)
    from "3.IH"(1) [OF e [symmetric] refl] "3.prems" e show ?thesis by simp
  next
    case (Cons f fs)
    then have e: "Pop t fb = (Some f, fb\<lparr>m_frames := fs\<rparr>)" by (simp add: Pop_def)
    from "3.IH"(2) [OF e [symmetric] refl] "3.prems" e Cons show ?thesis by simp
  qed
next
  case (4 ops fb popped)
  then show ?case by simp
next
  case (5 ops fb popped)
  then show ?case by (simp add: Clear_def Clear_loop_nil)
qed

lemma resident_Push:
  assumes "resident hist fb popped" "Push f fb = Inr fb'"
  shows "resident (hist @ [f]) fb' popped"
proof -
  from assms(1) obtain k where k: "k \<le> length hist" "m_frames fb = drop k hist"
    "subseq popped (take k hist)" unfolding resident_def by blast
  from assms(2) obtain q where q: "Push_evict (m_maxFrames fb) (m_frames fb) = Inr q"
    "fb' = fb\<lparr>m_frames := q @ [f]\<rparr>"
    by (auto simp: Push_def split: sum.splits)
  from Push_evict_drop [OF q(1)] obtain j
    where j: "j \<le> length (m_frames fb)" "q = drop j (m_frames fb)" by blast
  have 1: "k + j \<le> length (hist @ [f])" using k j by simp
  have 2: "m_frames fb' = drop (k + j) (hist @ [f])" using k j q by (simp add: add.commute)
  have "take (k + j) (hist @ [f]) = take k (hist @ [f]) @ take j (drop k (hist @ [f]))"
    by (rule take_add)
  moreover have "take k (hist @ [f]) = take k hist" using k(1) by simp
  ultimately have "take (k + j) (hist @ [f]) = take k hist @ take j (drop k (hist @ [f]))"
    by (rule trans [OF _ arg_cong [where f = "\<lambda>x. x @ take j (drop k (hist @ [f]))"]])
  then have 3: "subseq popped (take (k + j) (hist @ [f]))"
    using k(3) by (simp only: subseq_rev_drop_many)
  show ?thesis unfolding resident_def using 1 2 3 by blast
qed

lemma resident_Pop_Some:
  assumes "resident hist fb popped" "Pop t fb = (Some f, fb')"
  shows "resident hist fb' (popped @ [f])"
proof -
  from assms(1) obtain k where k: "k \<le> length hist" "m_frames fb = drop k hist"
    "subseq popped (take k hist)" unfolding resident_def by blast
  from assms(2) obtain fs where fs: "m_frames fb = f # fs" "fb' = fb\<lparr>m_frames := fs\<rparr>"
    by (auto simp: Pop_def split: list.splits)
  have lt: "k < length hist" using k fs by (cases "k < length hist") auto
  have "drop k hist = hist ! k # drop (Suc k) hist" using lt by (simp add: Cons_nth_drop_Suc)
  then have e: "f = hist ! k" "fs = drop (Suc k) hist" using k fs by auto
  have "take (Suc k) hist = take k hist @ [f]" using lt e by (simp add: take_Suc_conv_app_nth)
  then have "subseq (popped @ [f]) (take (Suc k) hist)"
    using k(3) by (simp add: list_emb_append_mono)
  then show ?thesis unfolding resident_def using lt e fs by (intro exI [of _ "Suc k"]) simp
qed

lemma resident_Pop_None:
  assumes "resident hist fb popped" "Pop t fb = (None, fb')"
  shows "resident hist fb' popped"
  using assms by (auto simp: Pop_def split: list.splits)

lemma resident_Clear:
  assumes "resident hist fb popped"
  shows "resident hist (Clear fb) popped"
proof -
  from assms obtain k where k: "k \<le> length hist" "subseq popped (take k hist)"
    unfolding resident_def by blast
  have "subseq popped (take k hist @ drop k hist)" using k(2) by (rule subseq_rev_drop_many)
  then have "subseq popped hist" by simp
  then show ?thesis unfolding resident_def
    by (intro exI [of _ "length hist"]) (simp add: Clear_def Clear_loop_nil)
qed

lemma run_ops_resident:
  "run_ops ops fb popped = Inr (fb', popped') \<Longrightarrow> resident hist fb popped
     \<Longrightarrow> resident (hist @ pushed ops) fb' popped'"
proof (induction ops fb popped arbitrary: hist rule: run_ops.induct)
  case (1 fb popped)
  then show ?case by simp
next
  case (2 f ops fb popped)
  from "2.prems"(1) obtain fb1
    where p: "Push f fb = Inr fb1" "run_ops ops fb1 popped = Inr (fb', popped')"
    by (auto split: sum.splits)
  from "2.IH" [OF p(1) p(2) resident_Push [OF "2.prems"(2) p(1)]]
  show ?case by simp
next
  case (3 t ops fb popped)
  show ?case
  proof (cases "Pop t fb")
    case (Pair r fb1)
    show ?thesis
    proof (cases r)
      case None
      with Pair "3.prems" have "run_ops ops fb1 popped = Inr (fb', popped')" by simp
      from "3.IH"(1) [OF Pair [symmetric] None this] resident_Pop_None "3.prems"(2) Pair None
      show ?thesis by auto
    next
      case (Some f)
      with Pair "3.prems" have "run_ops ops fb1 (popped @ [f]) = Inr (fb', popped')" by simp
      from "3.IH"(2) [OF Pair [symmetric] Some this] resident_Pop_Some "3.prems"(2) Pair Some
      show ?thesis by auto
    qed
  qed
next
  case (4 ops fb popped)
  then show ?case by simp
next
  case (5 ops fb popped)
  then show ?case using resident_Clear by simp
qed

lemma resident_new: "resident [] (FrameBuffer_new c) []"
  by (simp add: resident_def FrameBuffer_new_def)


text \<open>
  For every capacity of at least 1, a push into a full buffer drops exactly the oldest
  frame, appends the new one and leaves the size at the capacity.
\<close>

lemma Push_full_keeps_capacity:
  assumes "1 \<le> m_maxFrames fb" "length (m_frames fb) = m_maxFrames fb"
  shows "\<exists>fb'. Push f fb = Inr fb' \<and> m_frames fb' = tl (m_frames fb) @ [f]
           \<and> Size fb' = m_maxFrames fb"
proof -
  from assms have "m_frames fb \<noteq> []" by auto
  then have "length (tl (m_frames fb) @ [f]) = length (m_frames fb)" by simp
  with Push_full_evicts_oldest [OF assms, of f] assms(2) show ?thesis
    by (simp add: Size_def)
qed

text \<open>
  C2. A buffer constructed with capacity 0 is a buffer whose size equals its capacity.
  \<^verbatim>\<open>Push\<close> on it does not succeed: the guard \<^verbatim>\<open>m_frames.size() >= m_maxFrames\<close> of
  the eviction loop holds for the empty queue, the loop pops the empty queue, and the
  insertion is never reached.
\<close>

theorem Push_capacity_zero_pops_empty_queue:
  "Push f (FrameBuffer_new 0) = Inl PopOnEmptyQueue"
  by (simp add: Push_def FrameBuffer_new_def)

text \<open>
  C5. Take any history of pushes, pops, peeks and clears on a new buffer. If the capacity
  is at least 1 the history runs to its end. Whenever it does, the queue holds the
  pushed frames from some position \<open>k\<close> on, in push order; the frames that the pops
  returned are frames pushed before position \<open>k\<close>, in push order; and the next
  \<^verbatim>\<open>Pop\<close> removes and returns the frame pushed at position \<open>k\<close>, the oldest resident
  one, or returns no frame when nothing is resident.
\<close>

theorem Pop_oldest_resident_in_push_order:
  "(1 \<le> c \<longrightarrow> (\<exists>fb popped. run_ops ops (FrameBuffer_new c) [] = Inr (fb, popped)))
   \<and> (\<forall>fb popped. run_ops ops (FrameBuffer_new c) [] = Inr (fb, popped) \<longrightarrow>
         (\<exists>k \<le> length (pushed ops).
            m_frames fb = drop k (pushed ops)
          \<and> subseq popped (take k (pushed ops))
          \<and> Pop t fb =
              (if k < length (pushed ops)
               then (Some (pushed ops ! k), fb\<lparr>m_frames := drop (Suc k) (pushed ops)\<rparr>)
               else (None, fb))))"
proof (intro conjI impI allI)
  assume "1 \<le> c"
  then have "1 \<le> m_maxFrames (FrameBuffer_new c)"
    "length (m_frames (FrameBuffer_new c)) \<le> m_maxFrames (FrameBuffer_new c)"
    by (simp_all add: FrameBuffer_new_def)
  from run_ops_total [OF this, of ops "[]"]
  show "\<exists>fb popped. run_ops ops (FrameBuffer_new c) [] = Inr (fb, popped)" by blast
next
  fix fb popped
  assume r: "run_ops ops (FrameBuffer_new c) [] = Inr (fb, popped)"
  from run_ops_resident [OF r resident_new] obtain k where
    k: "k \<le> length (pushed ops)" "m_frames fb = drop k (pushed ops)"
       "subseq popped (take k (pushed ops))"
    unfolding resident_def by auto
  have "Pop t fb =
      (if k < length (pushed ops)
       then (Some (pushed ops ! k), fb\<lparr>m_frames := drop (Suc k) (pushed ops)\<rparr>)
       else (None, fb))"
  proof (cases "k < length (pushed ops)")
    case True
    then have "m_frames fb = pushed ops ! k # drop (Suc k) (pushed ops)"
      using k(2) by (simp add: Cons_nth_drop_Suc)
    with True show ?thesis by (simp add: Pop_def)
  next
    case False
    with k have "m_frames fb = []" by simp
    with False show ?thesis by (simp add: Pop_def)
  qed
  with k show "\<exists>k \<le> length (pushed ops).
            m_frames fb = drop k (pushed ops)
          \<and> subseq popped (take k (pushed ops))
          \<and> Pop t fb =
              (if k < length (pushed ops)
               then (Some (pushed ops ! k), fb\<lparr>m_frames := drop (Suc k) (pushed ops)\<rparr>)
               else (None, fb))" by blast
qed

text \<open>
  Three frames pushed into a buffer of capacity 2, then one pop: the first frame was
  evicted, the pop returned the second, and the next pop returns the third.
\<close>

theorem Pop_oldest_resident_in_push_order_witness:
  "run_ops [OpPush (VideoFrame_default\<lparr>timestamp := 1\<rparr>),
            OpPush (VideoFrame_default\<lparr>timestamp := 2\<rparr>),
            OpPush (VideoFrame_default\<lparr>timestamp := 3\<rparr>),
            OpPop 100] (FrameBuffer_new 2) []
     = Inr (\<lparr>m_frames = [VideoFrame_default\<lparr>timestamp := 3\<rparr>], m_maxFrames = 2\<rparr>,
            [VideoFrame_default\<lparr>timestamp := 2\<rparr>])
   \<and> Pop 100 \<lparr>m_frames = [VideoFrame_default\<lparr>timestamp := 3\<rparr>], m_maxFrames = 2\<rparr>
     = (Some (VideoFrame_default\<lparr>timestamp := 3\<rparr>), \<lparr>m_frames = [], m_maxFrames = 2\<rparr>)"
proof -
  let ?ops = "[OpPush (VideoFrame_default\<lparr>timestamp := 1\<rparr>),
            OpPush (VideoFrame_default\<lparr>timestamp := 2\<rparr>),
            OpPush (VideoFrame_default\<lparr>timestamp := 3\<rparr>),
            OpPop 100]"
  let ?fb = "\<lparr>m_frames = [VideoFrame_default\<lparr>timestamp := 3\<rparr>], m_maxFrames = 2\<rparr>"
  have r: "run_ops ?ops (FrameBuffer_new 2) []
      = Inr (?fb, [VideoFrame_default\<lparr>timestamp := 2\<rparr>])"
    by (simp add: FrameBuffer_new_def Push_def Pop_def)
  from Pop_oldest_resident_in_push_order [of 2 ?ops 100, THEN conjunct2, rule_format, OF r]
  obtain k where k: "k \<le> length (pushed ?ops)" "m_frames ?fb = drop k (pushed ?ops)"
    "Pop 100 ?fb = (if k < length (pushed ?ops)
               then (Some (pushed ?ops ! k), ?fb\<lparr>m_frames := drop (Suc k) (pushed ?ops)\<rparr>)
               else (None, ?fb))" by blast
  from k(2) have "length (m_frames ?fb) = length (drop k (pushed ?ops))"
    by (rule arg_cong)
  then have "k = 2" by simp
  with k(3) r show ?thesis by simp
qed

text \<open>
  C10, as amended. On a new buffer of capacity at least 1, every history of pushes,
  pops, peeks and clears runs to its end, and the size at its end is at most the
  capacity. The histories include every prefix of a history, so the bound holds after
  every operation.
\<close>

theorem Size_bounded_for_positive_capacity:
  assumes "1 \<le> c"
  shows "\<exists>fb popped. run_ops ops (FrameBuffer_new c) [] = Inr (fb, popped)
           \<and> Size fb \<le> c \<and> m_maxFrames fb = c"
proof -
  from assms have "1 \<le> m_maxFrames (FrameBuffer_new c)"
    "length (m_frames (FrameBuffer_new c)) \<le> m_maxFrames (FrameBuffer_new c)"
    by (simp_all add: FrameBuffer_new_def)
  from run_ops_total [OF this, of ops "[]"]
  show ?thesis by (auto simp add: Size_def FrameBuffer_new_def)
qed

theorem Size_bounded_for_positive_capacity_witness:
  "(1::nat) \<le> 1
   \<and> run_ops [OpPush VideoFrame_default, OpPush (VideoFrame_default\<lparr>timestamp := 1\<rparr>)]
        (FrameBuffer_new 1) []
      = Inr (\<lparr>m_frames = [VideoFrame_default\<lparr>timestamp := 1\<rparr>], m_maxFrames = 1\<rparr>, [])
   \<and> Size \<lparr>m_frames = [VideoFrame_default\<lparr>timestamp := 1\<rparr>], m_maxFrames = 1\<rparr> \<le> 1"
proof -
  have c: "(1::nat) \<le> 1" by simp
  have r: "run_ops [OpPush VideoFrame_default, OpPush (VideoFrame_default\<lparr>timestamp := 1\<rparr>)]
        (FrameBuffer_new 1) []
      = Inr (\<lparr>m_frames = [VideoFrame_default\<lparr>timestamp := 1\<rparr>], m_maxFrames = 1\<rparr>, [])"
    by (simp add: FrameBuffer_new_def Push_def)
  from Size_bounded_for_positive_capacity [OF c,
      of "[OpPush VideoFrame_default, OpPush (VideoFrame_default\<lparr>timestamp := 1\<rparr>)]"]
  show ?thesis using c r by auto
qed

text \<open>
  With capacity 0 the push does not insert the frame, and the buffer of size 1 is not
  the result.
\<close>

theorem Push_capacity_zero_counterexample:
  "run_ops [OpPush VideoFrame_default] (FrameBuffer_new 0) [] = Inl PopOnEmptyQueue
   \<and> run_ops [OpPush VideoFrame_default] (FrameBuffer_new 0) []
       \<noteq> Inr (\<lparr>m_frames = [VideoFrame_default], m_maxFrames = 0\<rparr>, [])"
  by (simp add: Push_def FrameBuffer_new_def)

section \<open>The frame codec: encoding\<close>

lemma WriteFrame_mask_eq:
  "WriteFrame_mask dat i frame
     = frame @ map (\<lambda>j. dat ! j XOR mask_key ! (j mod 4)) [i..<length dat]"
proof (induction dat i frame rule: WriteFrame_mask.induct)
  case (1 dat i frame)
  show ?case
  proof (cases "i < length dat")
    case True
    then show ?thesis
      using "1.IH" by (subst WriteFrame_mask.simps) (simp add: upt_conv_Cons)
  next
    case False
    then show ?thesis by (subst WriteFrame_mask.simps) simp
  qed
qed

lemma WriteFrame_len64_eq:
  "WriteFrame_len64 k sz frame
     = frame @ map (\<lambda>i. ucast (drop_bit (i * 8) sz AND 0xFF)) (rev [0..<k])"
  by (induction k arbitrary: frame) auto

lemma mask8_64: "(0xFF :: 64 word) = mask 8"
  by (simp add: mask_eq_exp_minus_1)

lemma div_mod_256: "n div 256 ^ i mod 256 = take_bit 8 (drop_bit (i * 8) (n::nat))"
proof -
  have "(2::nat) ^ (8 * i) = (2 ^ 8) ^ i" by (rule power_mult)
  then have "(256::nat) ^ i = 2 ^ (i * 8)" by (simp add: mult.commute)
  then show ?thesis by (simp add: take_bit_eq_mod drop_bit_eq_div)
qed

lemma bit_below:
  assumes "(n::nat) < 2 ^ m" "bit n k"
  shows "k < m"
proof -
  have "take_bit m n = n" using assms(1) by (simp add: take_bit_nat_eq_self)
  then have "bit (take_bit m n) k" using assms(2) by simp
  then show ?thesis by (simp add: bit_take_bit_iff)
qed

lemma size_byte:
  assumes "n < 2 ^ 64"
  shows "(ucast (drop_bit (i * 8) (word_of_nat n :: 64 word) AND 0xFF) :: byte)
           = word_of_nat (n div 256 ^ i mod 256)"
  unfolding mask8_64 div_mod_256
  by (rule bit_word_eqI) (auto simp add: bit_simps dest: bit_below [OF assms])

lemma size_le:
  assumes "n < 2 ^ 64"
  shows "(word_of_nat n :: 64 word) \<le> 125 \<longleftrightarrow> n \<le> 125"
    "(word_of_nat n :: 64 word) \<le> 65535 \<longleftrightarrow> n \<le> 65535"
  using assms by (simp_all add: word_le_nat_alt unat_of_nat)

lemma size_low8: "(ucast (word_of_nat n :: 64 word) :: byte) = word_of_nat n"
  by (rule bit_word_eqI) (auto simp add: bit_simps)

lemma spec_big_endian_2:
  "spec_big_endian 2 n = [word_of_nat (n div 256 mod 256), word_of_nat (n mod 256)]"
  by (simp add: spec_big_endian_def numeral_2_eq_2)

lemma length_spec_big_endian: "length (spec_big_endian k n) = k"
  by (simp add: spec_big_endian_def)

lemma length_spec_masked: "length (spec_masked key payload) = length payload"
  by (simp add: spec_masked_def)

lemma length_spec_length_field: "length (spec_length_field masked n) \<le> 9"
  by (simp add: spec_length_field_def Let_def length_spec_big_endian)

lemma WriteFrame_frame_spec:
  assumes "length dat < 2 ^ 64"
  shows "WriteFrame_frame dat = spec_Encode mask_key dat"
proof -
  let ?n = "length dat"
  have m: "WriteFrame_mask dat 0 frame = frame @ spec_masked mask_key dat" for frame
    by (simp add: WriteFrame_mask_eq spec_masked_def)
  have b0: "(ucast ((word_of_nat ?n :: 64 word) AND 0xFF) :: byte) = word_of_nat (?n mod 256)"
    using size_byte [OF assms, of 0] by simp
  have b1: "(ucast (drop_bit 8 (word_of_nat ?n :: 64 word) AND 0xFF) :: byte)
      = word_of_nat (?n div 256 mod 256)"
    using size_byte [OF assms, of 1] by simp
  have l64: "WriteFrame_len64 8 (word_of_nat ?n) frame = frame @ spec_big_endian 8 ?n"
    for frame
    unfolding WriteFrame_len64_eq spec_big_endian_def
    by (simp add: size_byte [OF assms])
  show ?thesis
    unfolding WriteFrame_frame_def spec_Encode_def spec_length_field_def Let_def
      size_le [OF assms] m
    by (simp add: size_low8 b0 b1 l64 spec_big_endian_2)
qed

lemma int_cast_small:
  assumes "n < 2 ^ 31"
  shows "int_cast n = int n"
proof -
  have "(0::int) \<le> 2 ^ 31" by simp
  then have "- (2 ^ 31) \<le> (0::int)" by simp
  also have "0 \<le> int n" by simp
  finally have "- (2 ^ 31) \<le> int n" .
  moreover have "int n < 2 ^ 31" using assms by simp
  ultimately have "signed_take_bit 31 (int n) = int n" by (rule signed_take_bit_int_eq_self)
  then show ?thesis by (simp add: int_cast_def signed_of_nat)
qed

lemma length_spec_Encode:
  "length (spec_Encode mask_key dat) \<le> length dat + 14"
  using length_spec_length_field [of True "length dat"]
  by (simp add: spec_Encode_def mask_key_def length_spec_masked)

lemma WriteFrame_sends_frame:
  assumes "length dat + 14 < 2 ^ 31" "can_send s"
  shows "WriteFrame dat (Some s) = (True, Some (s\<lparr>sent := sent s @ [spec_Encode mask_key dat]\<rparr>))"
proof -
  have "length dat < 2 ^ 31" using assms(1) by simp
  also have "(2::nat) ^ 31 < 2 ^ 64" by simp
  finally have f: "WriteFrame_frame dat = spec_Encode mask_key dat"
    by (rule WriteFrame_frame_spec)
  have "length (spec_Encode mask_key dat) < 2 ^ 31"
    using length_spec_Encode [of dat] assms(1) by simp
  then have c: "int_cast (length (spec_Encode mask_key dat)) = int (length (spec_Encode mask_key dat))"
    by (rule int_cast_small)
  show ?thesis
    using assms(2) by (simp add: WriteFrame_def f c send_def)
qed

section \<open>The frame codec: decoding\<close>

lemma ReadFrame_len16_spec:
  assumes "n \<le> 65535"
  shows "ReadFrame_len16 (spec_big_endian 2 n) = word_of_nat n"
proof -
  have "n < 2 ^ 16" using assms by simp
  note b = bit_below [OF this]
  have 1: "n div 256 mod 256 = take_bit 8 (drop_bit 8 n)" "n mod 256 = take_bit 8 n"
    by (simp_all add: take_bit_eq_mod drop_bit_eq_div)
  show ?thesis
    unfolding spec_big_endian_2 ReadFrame_len16_def 1
    by (rule bit_word_eqI) (auto simp: bit_simps not_less dest: b)
qed

lemma fold_len64:
  fixes acc :: "64 word"
  shows "fold (\<lambda>b payloadLen. push_bit 8 payloadLen OR ucast b)
           (map (\<lambda>i. (word_of_nat (take_bit 8 (drop_bit (i * 8) n)) :: byte)) (rev [0..<k])) acc
         = push_bit (k * 8) acc OR word_of_nat (take_bit (k * 8) n)"
proof (induction k arbitrary: acc)
  case 0
  then show ?case by simp
next
  case (Suc k)
  show ?case
    apply (simp add: Suc.IH del: mult_Suc)
    apply (rule bit_word_eqI)
    apply (auto simp: bit_simps not_less ac_simps)
    done
qed

lemma ReadFrame_len64_spec:
  "ReadFrame_len64 (spec_big_endian 8 n) = word_of_nat n"
proof -
  have "ReadFrame_len64 (spec_big_endian 8 n)
      = push_bit (8 * 8) 0 OR (word_of_nat (take_bit (8 * 8) n) :: 64 word)"
    unfolding ReadFrame_len64_def spec_big_endian_def div_mod_256 by (rule fold_len64)
  also have "\<dots> = word_of_nat n"
    by (rule bit_word_eqI) (auto simp: bit_simps)
  finally show ?thesis .
qed

lemma low7_64:
  fixes b1 :: byte
  assumes "b1 AND 0x7F = word_of_nat n" "n \<le> 127"
  shows "(ucast (b1 AND 0x7F) :: 64 word) = word_of_nat n"
proof -
  have "n < 2 ^ 8" using assms(2) by simp
  note b = bit_below [OF this]
  show ?thesis
    unfolding assms(1)
    by (rule bit_word_eqI) (auto simp: bit_simps dest: b)
qed

lemma unat_of_nat_64: "n < 2 ^ 64 \<Longrightarrow> unat (word_of_nat n :: 64 word) = n"
  by (simp add: unat_of_nat)

lemma word64_of_nat_eq:
  assumes "n < 2 ^ 64" "m < 2 ^ 64"
  shows "(word_of_nat n :: 64 word) = word_of_nat m \<longleftrightarrow> n = m"
  using assms by (metis unat_of_nat_64)

lemma low7_masked:
  assumes "n \<le> 127"
  shows "((0x80 :: byte) OR word_of_nat n) AND 0x7F = word_of_nat n"
    "((0x00 :: byte) OR word_of_nat n) AND 0x7F = word_of_nat n"
proof -
  have "n < 2 ^ 7" using assms by simp
  then have "take_bit 7 n = n" by (simp add: take_bit_nat_eq_self)
  then have "take_bit 7 (word_of_nat n :: byte) = word_of_nat n"
    by (simp add: take_bit_of_nat)
  moreover have m: "(0x7F :: byte) = mask 7" by (simp add: mask_eq_exp_minus_1)
  ultimately have w: "(word_of_nat n :: byte) AND 0x7F = word_of_nat n"
    by (simp only: take_bit_eq_mask)
  have "((0x80 :: byte) OR word_of_nat n) AND 0x7F = (0x80 AND 0x7F) OR (word_of_nat n AND 0x7F)"
    by (rule bit.conj_disj_distrib2)
  also have "(0x80 :: byte) AND 0x7F = 0" by simp
  finally show "((0x80 :: byte) OR word_of_nat n) AND 0x7F = word_of_nat n"
    by (simp only: w or.left_neutral)
  show "((0x00 :: byte) OR word_of_nat n) AND 0x7F = word_of_nat n"
    by (simp only: w or.left_neutral)
qed

lemma drain_0 [simp]: "drain 0 cs = cs"
  by (cases cs) auto

lemma drain_drain: "drain a (drain b cs) = drain (a + b) cs"
  by (induction cs arbitrary: a b) auto

lemma drain_nonempty: "list_all (\<lambda>c. c \<noteq> []) cs \<Longrightarrow> list_all (\<lambda>c. c \<noteq> []) (drain k cs)"
  by (induction cs arbitrary: k) auto

lemma concat_drain: "concat (drain k cs) = drop k (concat cs)"
  by (induction cs arbitrary: k) auto

lemma drain_all:
  "list_all (\<lambda>c. c \<noteq> []) cs \<Longrightarrow> length (concat cs) \<le> k \<Longrightarrow> drain k cs = []"
proof (induction cs arbitrary: k)
  case Nil
  then show ?case by simp
next
  case (Cons c cs)
  then have p: "0 < length c" by simp
  have l: "length c \<le> k" using Cons.prems(2) by simp
  from p l have "0 < k" by (rule less_le_trans)
  moreover from l have "\<not> k < length c" by simp
  ultimately have "0 < k" "\<not> k < length c" .
  with Cons show ?case by simp
qed

lemma recv_chunks:
  assumes "incoming s = map Seg chunks @ es" "chunks \<noteq> []" "0 < k" "k \<le> length (hd chunks)"
  shows "recv (Some s) (int k)
           = (int k, take k (concat chunks), Some (s\<lparr>incoming := map Seg (drain k chunks) @ es\<rparr>))"
proof -
  from assms(2) obtain c cs where c: "chunks = c # cs" by (cases chunks) auto
  with assms(4) have m: "min k (length c) = k" by simp
  show ?thesis using assms(1,3,4) c by (auto simp add: recv_def m Let_def)
qed

lemma ReadFrame_loop_chunks:
  assumes "incoming s = map Seg chunks @ es" "list_all (\<lambda>c. c \<noteq> []) chunks"
    "n - t \<le> length (concat chunks)" "length pre = t" "t \<le> n" "n < 2 ^ 31"
  shows "ReadFrame_loop n t (pre @ replicate (n - t) 0) (Some s)
           = (pre @ take (n - t) (concat chunks),
              Some (s\<lparr>incoming := map Seg (drain (n - t) chunks) @ es\<rparr>))"
  using assms
proof (induction chunks arbitrary: s t pre)
  case Nil
  then have "t = n" by simp
  with Nil show ?case by (subst ReadFrame_loop.simps) simp
next
  case (Cons c cs)
  show ?case
  proof (cases "t < n")
    case False
    with Cons.prems have "t = n" by simp
    with Cons.prems show ?thesis by (subst ReadFrame_loop.simps) simp
  next
    case True
    let ?k = "min (n - t) (length c)"
    from Cons.prems(2) have cne: "c \<noteq> []" by simp
    with True have kpos: "0 < ?k" by simp
    have "n - t < 2 ^ 31" using Cons.prems(6) by simp
    then have ic: "int_cast (n - t) = int (n - t)" by (rule int_cast_small)
    let ?s' = "s\<lparr>incoming := (if ?k < length c then Seg (drop ?k c) # map Seg cs @ es
                               else map Seg cs @ es)\<rparr>"
    have r: "recv (Some s) (int_cast (n - t)) = (int ?k, take ?k c, Some ?s')"
      using Cons.prems(1) by (simp add: recv_def ic Let_def)
    have st: "store (pre @ replicate (n - t) 0) t (take ?k c)
        = (pre @ take ?k c) @ replicate (n - (t + ?k)) 0"
      using Cons.prems(4) by (simp add: store_def min_def)
    have step: "ReadFrame_loop n t (pre @ replicate (n - t) 0) (Some s)
        = ReadFrame_loop n (t + ?k) ((pre @ take ?k c) @ replicate (n - (t + ?k)) 0) (Some ?s')"
      using True kpos by (subst ReadFrame_loop.simps) (simp add: r st del: min_less_iff_conj)
    show ?thesis
    proof (cases "n - t \<le> length c")
      case True
      then have k: "?k = n - t" by simp
      have "ReadFrame_loop n (t + ?k) ((pre @ take ?k c) @ replicate (n - (t + ?k)) 0) (Some ?s')
          = ((pre @ take ?k c) @ replicate (n - (t + ?k)) 0, Some ?s')"
        using \<open>t < n\<close> by (subst ReadFrame_loop.simps) (simp add: k)
      with step True \<open>t < n\<close> show ?thesis by (auto simp add: k)
    next
      case False
      then have k: "?k = length c" by simp
      have i: "incoming ?s' = map Seg cs @ es" by (simp add: k)
      have l: "n - (t + length c) \<le> length (concat cs)" using Cons.prems(3) False by simp
      from Cons.prems(2) have ne: "list_all (\<lambda>c. c \<noteq> []) cs" by simp
      have "length (pre @ c) = t + length c" using Cons.prems(4) by simp
      moreover have "t + length c \<le> n" using False by simp
      ultimately have "ReadFrame_loop n (t + length c)
            ((pre @ c) @ replicate (n - (t + length c)) 0) (Some ?s')
          = ((pre @ c) @ take (n - (t + length c)) (concat cs),
             Some (?s'\<lparr>incoming := map Seg (drain (n - (t + length c)) cs) @ es\<rparr>))"
        using Cons.IH [OF i ne l _ _ Cons.prems(6)] by blast
      with step False cne show ?thesis by (simp add: k)
    qed
  qed
qed


lemma ReadFrame_payload_chunks:
  assumes "incoming s = map Seg chunks @ es" "list_all (\<lambda>c. c \<noteq> []) chunks"
    "n \<le> length (concat chunks)" "n < 2 ^ 31" "n \<le> max_size"
  shows "ReadFrame_payload max_size (word_of_nat n) (Some s)
           = Inr (take n (concat chunks), Some (s\<lparr>incoming := map Seg (drain n chunks) @ es\<rparr>))"
proof -
  have "n < 2 ^ 64" using assms(4) by (rule less_trans) simp
  then have u: "unat (word_of_nat n :: 64 word) = n" by (rule unat_of_nat_64)
  from ReadFrame_loop_chunks [where pre = "[]" and t = 0, OF assms(1,2) _ _ _ assms(4)] assms(3)
  have "ReadFrame_loop n 0 (replicate n 0) (Some s)
      = (take n (concat chunks), Some (s\<lparr>incoming := map Seg (drain n chunks) @ es\<rparr>))"
    by simp
  then show ?thesis unfolding ReadFrame_payload_def u using assms(5) by simp
qed

lemma recv_header:
  assumes "incoming s = map Seg chunks @ es" "list_all (\<lambda>c. c \<noteq> []) chunks"
    "concat chunks = hd_bytes @ rest" "0 < length hd_bytes" "length hd_bytes \<le> length (hd chunks)"
  shows "recv (Some s) (int (length hd_bytes))
      = (int (length hd_bytes), hd_bytes,
         Some (s\<lparr>incoming := map Seg (drain (length hd_bytes) chunks) @ es\<rparr>))"
    "list_all (\<lambda>c. c \<noteq> []) (drain (length hd_bytes) chunks)"
    "concat (drain (length hd_bytes) chunks) = rest"
proof -
  from assms(3,4) have "chunks \<noteq> []" by auto
  from recv_chunks [OF assms(1) this assms(4,5)] assms(3)
  show "recv (Some s) (int (length hd_bytes))
      = (int (length hd_bytes), hd_bytes,
         Some (s\<lparr>incoming := map Seg (drain (length hd_bytes) chunks) @ es\<rparr>))" by simp
  show "list_all (\<lambda>c. c \<noteq> []) (drain (length hd_bytes) chunks)"
    using assms(2) by (rule drain_nonempty)
  show "concat (drain (length hd_bytes) chunks) = rest"
    using assms(3) by (simp add: concat_drain)
qed

lemma ReadFrame_direct_chunks:
  assumes "incoming s = map Seg chunks @ es" "list_all (\<lambda>c. c \<noteq> []) chunks"
    "concat chunks = [b0, b1] @ rest" "2 \<le> length (hd chunks)"
    "b1 AND 0x7F = word_of_nat n" "n \<le> 125" "n \<le> length rest" "n \<le> max_size"
  shows "ReadFrame max_size (Some s)
           = Inr (take n rest, Some (s\<lparr>incoming := map Seg (drain (n + 2) chunks) @ es\<rparr>))"
proof -
  let ?s1 = "s\<lparr>incoming := map Seg (drain 2 chunks) @ es\<rparr>"
  have l2: "length [b0, b1] = 2" by simp
  have p2: "(0::nat) < 2" by simp
  note rh = recv_header [OF assms(1,2,3), unfolded l2, OF p2 assms(4)]
  have r: "recv (Some s) 2 = (2, [b0, b1], Some ?s1)"
    and ne: "list_all (\<lambda>c. c \<noteq> []) (drain 2 chunks)"
    and c: "concat (drain 2 chunks) = rest" using rh by simp_all
  have l: "(ucast (b1 AND 0x7F) :: 64 word) = word_of_nat n"
    using assms(5,6) by (intro low7_64) simp_all
  have n64: "n < 2 ^ 64" using assms(6) by simp
  have nq: "(word_of_nat n :: 64 word) \<noteq> 126" "(word_of_nat n :: 64 word) \<noteq> 127"
    using word64_of_nat_eq [OF n64, of 126] word64_of_nat_eq [OF n64, of 127] assms(6)
    by simp_all
  have n31: "n < 2 ^ 31" using assms(6) by simp
  have i: "incoming ?s1 = map Seg (drain 2 chunks) @ es" by simp
  from ReadFrame_payload_chunks [OF i ne _ n31 assms(8)] assms(7) c
  have p: "ReadFrame_payload max_size (word_of_nat n) (Some ?s1)
     = Inr (take n rest, Some (s\<lparr>incoming := map Seg (drain (n + 2) chunks) @ es\<rparr>))"
    by (simp add: drain_drain)
  show ?thesis
    unfolding ReadFrame_def r by (simp add: l nq p)
qed

lemma ReadFrame_extended_chunks:
  assumes "incoming s = map Seg chunks @ es" "list_all (\<lambda>c. c \<noteq> []) chunks"
    "concat chunks = [b0, b1] @ ext @ rest" "2 \<le> length (hd chunks)"
    "length ext \<le> length (hd (drain 2 chunks))"
    "n < 2 ^ 31" "n \<le> length rest" "n \<le> max_size"
    "b1 AND 0x7F = 126 \<and> ext = spec_big_endian 2 n \<and> n \<le> 65535
     \<or> b1 AND 0x7F = 127 \<and> ext = spec_big_endian 8 n"
  shows "ReadFrame max_size (Some s)
           = Inr (take n rest,
                  Some (s\<lparr>incoming := map Seg (drain (n + (length ext + 2)) chunks) @ es\<rparr>))"
proof -
  let ?s1 = "s\<lparr>incoming := map Seg (drain 2 chunks) @ es\<rparr>"
  let ?s2 = "s\<lparr>incoming := map Seg (drain (length ext + 2) chunks) @ es\<rparr>"
  have l2: "length [b0, b1] = 2" by simp
  have p2: "(0::nat) < 2" by simp
  note rh = recv_header [OF assms(1,2,3), unfolded l2, OF p2 assms(4)]
  have r: "recv (Some s) 2 = (2, [b0, b1], Some ?s1)"
    and ne: "list_all (\<lambda>c. c \<noteq> []) (drain 2 chunks)"
    and c: "concat (drain 2 chunks) = ext @ rest" using rh by simp_all
  have "length ext = 2 \<or> length ext = 8"
    using assms(9) length_spec_big_endian [of 2 n] length_spec_big_endian [of 8 n] by auto
  then have e: "0 < length ext" by auto
  have i: "incoming ?s1 = map Seg (drain 2 chunks) @ es" by simp
  from recv_header [OF i ne c e assms(5)]
  have r2: "recv (Some ?s1) (int (length ext)) = (int (length ext), ext, Some ?s2)"
    and ne2: "list_all (\<lambda>c. c \<noteq> []) (drain (length ext + 2) chunks)"
    and c2: "concat (drain (length ext + 2) chunks) = rest"
    by (simp_all add: drain_drain)
  have i2: "incoming ?s2 = map Seg (drain (length ext + 2) chunks) @ es" by simp
  from ReadFrame_payload_chunks [OF i2 ne2 _ assms(6,8)] assms(7) c2
  have p: "ReadFrame_payload max_size (word_of_nat n) (Some ?s2)
     = Inr (take n rest,
            Some (s\<lparr>incoming := map Seg (drain (n + (length ext + 2)) chunks) @ es\<rparr>))"
    by (simp add: drain_drain)
  from assms(9) show ?thesis
  proof
    assume a: "b1 AND 0x7F = 126 \<and> ext = spec_big_endian 2 n \<and> n \<le> 65535"
    then have l: "(ucast (b1 AND 0x7F) :: 64 word) = 126" by simp
    from a have le: "length ext = 2" by (simp add: length_spec_big_endian)
    from a have d: "ReadFrame_len16 ext = word_of_nat n" by (simp add: ReadFrame_len16_spec)
    show ?thesis
      unfolding ReadFrame_def r using r2 p by (simp add: l le d)
  next
    assume a: "b1 AND 0x7F = 127 \<and> ext = spec_big_endian 8 n"
    then have l: "(ucast (b1 AND 0x7F) :: 64 word) = 127" by simp
    from a have le: "length ext = 8" by (simp add: length_spec_big_endian)
    from a have d: "ReadFrame_len64 ext = word_of_nat n" by (simp add: ReadFrame_len64_spec)
    show ?thesis
      unfolding ReadFrame_def r using r2 p by (simp add: l le d)
  qed
qed

lemma ReadFrame_chunks:
  assumes "incoming s = map Seg chunks @ es"
    "arrives_whole chunks (spec_length_field masked n) (b0 # spec_length_field masked n @ rest)"
    "n < 2 ^ 31" "n \<le> length rest" "n \<le> max_size"
  shows "ReadFrame max_size (Some s)
           = Inr (take n rest,
                  Some (s\<lparr>incoming :=
                    map Seg (drain (n + (length (spec_length_field masked n) + 1)) chunks) @ es\<rparr>))"
proof -
  let ?lf = "spec_length_field masked n"
  from assms(2) have ne: "list_all (\<lambda>c. c \<noteq> []) chunks"
    and c: "concat chunks = b0 # ?lf @ rest" and h: "2 \<le> length (hd chunks)"
    and x: "length ?lf = 1 \<or> length ?lf - 1 \<le> length (hd (drain 2 chunks))"
    by (simp_all add: arrives_whole_def)
  define top :: byte where "top = (if masked then 0x80 else 0x00)"
  have top: "top = 0x80 \<or> top = 0x00" by (simp add: top_def)
  consider "n \<le> 125" | "125 < n" "n \<le> 65535" | "65535 < n" by linarith
  then show ?thesis
  proof cases
    case 1
    then have lf: "?lf = [top OR word_of_nat n]" by (simp add: spec_length_field_def top_def)
    from 1 have "n \<le> 127" by simp
    from low7_masked [OF this] top have m: "(top OR word_of_nat n) AND 0x7F = word_of_nat n"
      by auto
    have c': "concat chunks = [b0, top OR word_of_nat n] @ rest" using c lf by simp
    from ReadFrame_direct_chunks [OF assms(1) ne c' h m 1 assms(4,5)]
    show ?thesis by (simp add: lf)
  next
    case 2
    then have lf: "?lf = (top OR 126) # spec_big_endian 2 n"
      by (simp add: spec_length_field_def top_def)
    have m: "(top OR 126) AND 0x7F = 126" using top by auto
    have c': "concat chunks = [b0, top OR 126] @ spec_big_endian 2 n @ rest" using c lf by simp
    have x': "length (spec_big_endian 2 n) \<le> length (hd (drain 2 chunks))"
      using x lf by (simp add: length_spec_big_endian)
    from ReadFrame_extended_chunks [OF assms(1) ne c' h x' assms(3,4,5)] m 2
    show ?thesis by (simp add: lf length_spec_big_endian)
  next
    case 3
    then have lf: "?lf = (top OR 127) # spec_big_endian 8 n"
      by (simp add: spec_length_field_def top_def)
    have m: "(top OR 127) AND 0x7F = 127" using top by auto
    have c': "concat chunks = [b0, top OR 127] @ spec_big_endian 8 n @ rest" using c lf by simp
    have x': "length (spec_big_endian 8 n) \<le> length (hd (drain 2 chunks))"
      using x lf by (simp add: length_spec_big_endian)
    from ReadFrame_extended_chunks [OF assms(1) ne c' h x' assms(3,4,5)] m
    show ?thesis by (simp add: lf length_spec_big_endian)
  qed
qed

text \<open>
  C1, as amended. Let the payload have one of the six boundary lengths, and let the
  stream deliver a frame in any non-empty segments that leave the two header bytes
  whole and the extended length whole; the payload may be cut anywhere. From the
  unmasked frame that a server sends, \<^verbatim>\<open>ReadFrame\<close> returns the payload itself and
  consumes the frame. From the frame that \<^verbatim>\<open>WriteFrame\<close> builds it returns as many
  bytes as the payload has, taken from the masking key \<open>12 34 56 78\<close> followed by the
  masked payload: it reads the length, and neither skips the key nor removes the mask.
\<close>

theorem ReadFrame_roundtrip_boundary:
  assumes "length payload \<in> {0, 1, 125, 126, 65535, 65536}" "length payload \<le> max_size"
    "arrives_whole server_chunks (spec_length_field False (length payload))
       (spec_server_frame payload)"
    "arrives_whole client_chunks (spec_length_field True (length payload))
       (WriteFrame_frame payload)"
  shows "ReadFrame max_size (Some (s\<lparr>incoming := map Seg server_chunks @ es\<rparr>))
           = Inr (payload, Some (s\<lparr>incoming := es\<rparr>))
       \<and> ReadFrame max_size (Some (s\<lparr>incoming := map Seg client_chunks @ es\<rparr>))
           = Inr (take (length payload)
                    ([0x12, 0x34, 0x56, 0x78] @ spec_masked [0x12, 0x34, 0x56, 0x78] payload),
                  Some (s\<lparr>incoming :=
                     map Seg (drain (length payload
                                + (length (spec_length_field True (length payload)) + 1))
                              client_chunks) @ es\<rparr>))"
proof -
  let ?n = "length payload"
  from assms(1) have "?n \<le> 65536" by auto
  also have "(65536::nat) < 2 ^ 31" by simp
  finally have n31: "?n < 2 ^ 31" .
  then have n64: "?n < 2 ^ 64" by (rule less_trans) simp
  let ?ss = "s\<lparr>incoming := map Seg server_chunks @ es\<rparr>"
  have a3: "arrives_whole server_chunks (spec_length_field False ?n)
      (0x81 # spec_length_field False ?n @ payload)"
    using assms(3) by (simp add: spec_server_frame_def)
  have ne: "list_all (\<lambda>c. c \<noteq> []) server_chunks"
    and c: "length (concat server_chunks) = ?n + (length (spec_length_field False ?n) + 1)"
    using a3 by (simp_all add: arrives_whole_def)
  have "incoming ?ss = map Seg server_chunks @ es" by simp
  from ReadFrame_chunks [OF this a3 n31 order_refl assms(2)]
  have 1: "ReadFrame max_size (Some ?ss) = Inr (payload, Some (s\<lparr>incoming := es\<rparr>))"
    using drain_all [OF ne, of "?n + (length (spec_length_field False ?n) + 1)"] c by simp
  let ?sc = "s\<lparr>incoming := map Seg client_chunks @ es\<rparr>"
  let ?rest = "[0x12, 0x34, 0x56, 0x78] @ spec_masked [0x12, 0x34, 0x56, 0x78] payload"
  have a4: "arrives_whole client_chunks (spec_length_field True ?n)
      (0x81 # spec_length_field True ?n @ ?rest)"
    using assms(4) by (simp add: WriteFrame_frame_spec [OF n64] spec_Encode_def mask_key_def)
  have l: "?n \<le> length ?rest" by (simp add: length_spec_masked)
  have "incoming ?sc = map Seg client_chunks @ es" by simp
  from ReadFrame_chunks [OF this a4 n31 l assms(2)]
  have 2: "ReadFrame max_size (Some ?sc)
      = Inr (take ?n ?rest,
             Some (s\<lparr>incoming :=
               map Seg (drain (?n + (length (spec_length_field True ?n) + 1)) client_chunks)
                 @ es\<rparr>))"
    by simp
  from 1 2 show ?thesis by (rule conjI)
qed

text \<open>
  The one-byte payload \<open>0x61\<close>, with every frame cut after its header and once more
  later on; and a payload of 125 bytes, cut after the header and inside the payload, so
  that the loop of \<^verbatim>\<open>ReadFrame\<close> has to put the pieces together.
\<close>

theorem ReadFrame_roundtrip_boundary_witness:
  "length [0x61 :: byte] \<in> {0, 1, 125, 126, 65535, 65536} \<and> length [0x61 :: byte] \<le> 65536
   \<and> arrives_whole [[0x81, 0x01], [0x61]] (spec_length_field False (length [0x61 :: byte]))
        (spec_server_frame [0x61])
   \<and> arrives_whole [[0x81, 0x81], [0x12, 0x34], [0x56, 0x78, 0x73]]
        (spec_length_field True (length [0x61 :: byte])) (WriteFrame_frame [0x61])
   \<and> ReadFrame 65536
         (Some \<lparr>incoming = [Seg [0x81, 0x01], Seg [0x61]], can_send = True, sent = []\<rparr>)
       = Inr ([0x61], Some \<lparr>incoming = [], can_send = True, sent = []\<rparr>)
   \<and> ReadFrame 65536
         (Some \<lparr>incoming = [Seg [0x81, 0x81], Seg [0x12, 0x34], Seg [0x56, 0x78, 0x73]],
                can_send = True, sent = []\<rparr>)
       = Inr ([0x12], Some \<lparr>incoming = [Seg [0x34], Seg [0x56, 0x78, 0x73]],
                             can_send = True, sent = []\<rparr>)
   \<and> length (replicate 125 (0x61 :: byte)) \<in> {0, 1, 125, 126, 65535, 65536}
   \<and> length (replicate 125 (0x61 :: byte)) \<le> 65536
   \<and> arrives_whole [[0x81, 0x7D], replicate 100 0x61, replicate 25 0x61]
        (spec_length_field False (length (replicate 125 (0x61 :: byte))))
        (spec_server_frame (replicate 125 0x61))
   \<and> arrives_whole [[0x81, 0xFD], [0x12, 0x34, 0x56, 0x78],
          spec_masked [0x12, 0x34, 0x56, 0x78] (replicate 125 0x61)]
        (spec_length_field True (length (replicate 125 (0x61 :: byte))))
        (WriteFrame_frame (replicate 125 0x61))
   \<and> ReadFrame 65536
         (Some \<lparr>incoming = [Seg [0x81, 0x7D], Seg (replicate 100 0x61), Seg (replicate 25 0x61)],
                can_send = True, sent = []\<rparr>)
       = Inr (replicate 125 0x61, Some \<lparr>incoming = [], can_send = True, sent = []\<rparr>)
   \<and> ReadFrame 65536
         (Some \<lparr>incoming = [Seg [0x81, 0xFD], Seg [0x12, 0x34, 0x56, 0x78],
                   Seg (spec_masked [0x12, 0x34, 0x56, 0x78] (replicate 125 0x61))],
                can_send = True, sent = []\<rparr>)
       = Inr ([0x12, 0x34, 0x56, 0x78]
                @ take 121 (spec_masked [0x12, 0x34, 0x56, 0x78] (replicate 125 0x61)),
              Some \<lparr>incoming =
                      [Seg (drop 121 (spec_masked [0x12, 0x34, 0x56, 0x78] (replicate 125 0x61)))],
                    can_send = True, sent = []\<rparr>)"
proof -
  have h: "length [0x61 :: byte] \<in> {0, 1, 125, 126, 65535, 65536}"
    "length [0x61 :: byte] \<le> 65536" by simp_all
  have f: "spec_server_frame [0x61] = [0x81, 0x01, 0x61]"
    "WriteFrame_frame [0x61] = [0x81, 0x81, 0x12, 0x34, 0x56, 0x78, 0x73]"
    "spec_length_field False (Suc 0) = [0x01]" "spec_length_field True (Suc 0) = [0x81]"
    by (simp_all add: spec_server_frame_def spec_length_field_def WriteFrame_frame_def
        WriteFrame_mask.simps mask_key_def)
  have a: "arrives_whole [[0x81, 0x01], [0x61]] (spec_length_field False (length [0x61 :: byte]))
        (spec_server_frame [0x61])"
    "arrives_whole [[0x81, 0x81], [0x12, 0x34], [0x56, 0x78, 0x73]]
        (spec_length_field True (length [0x61 :: byte])) (WriteFrame_frame [0x61])"
    by (simp_all add: arrives_whole_def f)
  from ReadFrame_roundtrip_boundary [OF h a,
      where s = "\<lparr>incoming = [], can_send = True, sent = []\<rparr>" and es = "[]"]
  have one: "ReadFrame 65536
         (Some \<lparr>incoming = [Seg [0x81, 0x01], Seg [0x61]], can_send = True, sent = []\<rparr>)
       = Inr ([0x61], Some \<lparr>incoming = [], can_send = True, sent = []\<rparr>)
   \<and> ReadFrame 65536
         (Some \<lparr>incoming = [Seg [0x81, 0x81], Seg [0x12, 0x34], Seg [0x56, 0x78, 0x73]],
                can_send = True, sent = []\<rparr>)
       = Inr ([0x12], Some \<lparr>incoming = [Seg [0x34], Seg [0x56, 0x78, 0x73]],
                             can_send = True, sent = []\<rparr>)"
    by (simp add: f spec_masked_def)
  let ?p = "replicate 125 (0x61 :: byte)"
  let ?m = "spec_masked [0x12, 0x34, 0x56, 0x78] ?p"
  have h': "length ?p \<in> {0, 1, 125, 126, 65535, 65536}" "length ?p \<le> 65536" by simp_all
  have lm: "length ?m = 125" by (simp add: length_spec_masked)
  have r: "replicate 100 (0x61 :: byte) @ replicate 25 0x61 = ?p"
    by (simp add: replicate_add [symmetric])
  have lf: "spec_length_field False 125 = [0x7D]" "spec_length_field True 125 = [0xFD]"
    by (simp_all add: spec_length_field_def)
  have "length ?p < 2 ^ 64" by simp
  from WriteFrame_frame_spec [OF this]
  have f': "WriteFrame_frame ?p = [0x81, 0xFD, 0x12, 0x34, 0x56, 0x78] @ ?m"
    by (simp add: spec_Encode_def lf mask_key_def)
  have m0: "?m \<noteq> []" using lm by auto
  have a': "arrives_whole [[0x81, 0x7D], replicate 100 0x61, replicate 25 0x61]
        (spec_length_field False (length ?p)) (spec_server_frame ?p)"
    "arrives_whole [[0x81, 0xFD], [0x12, 0x34, 0x56, 0x78], ?m]
        (spec_length_field True (length ?p)) (WriteFrame_frame ?p)"
    using m0 by (simp_all add: arrives_whole_def lf f' r spec_server_frame_def)
  from ReadFrame_roundtrip_boundary [OF h' a',
      where s = "\<lparr>incoming = [], can_send = True, sent = []\<rparr>" and es = "[]"]
  have many: "ReadFrame 65536
         (Some \<lparr>incoming = [Seg [0x81, 0x7D], Seg (replicate 100 0x61), Seg (replicate 25 0x61)],
                can_send = True, sent = []\<rparr>)
       = Inr (replicate 125 0x61, Some \<lparr>incoming = [], can_send = True, sent = []\<rparr>)
   \<and> ReadFrame 65536
         (Some \<lparr>incoming = [Seg [0x81, 0xFD], Seg [0x12, 0x34, 0x56, 0x78], Seg ?m],
                can_send = True, sent = []\<rparr>)
       = Inr ([0x12, 0x34, 0x56, 0x78] @ take 121 ?m,
              Some \<lparr>incoming = [Seg (drop 121 ?m)], can_send = True, sent = []\<rparr>)"
    by (simp add: lf lm)
  from h a one h' a' many show ?thesis by blast
qed

text \<open>
  The one-byte payload \<open>0x61\<close>. With its frame in one segment, decoding the frame that
  \<^verbatim>\<open>WriteFrame\<close> builds returns the first key byte \<open>0x12\<close>, not the payload. With the
  same frame cut between its two header bytes, the first read returns one byte and the
  result is empty.
\<close>

theorem ReadFrame_of_WriteFrame_counterexample:
  "ReadFrame 65536
     (Some \<lparr>incoming = [Seg (WriteFrame_frame [0x61])], can_send = True, sent = []\<rparr>)
     = Inr ([0x12], Some \<lparr>incoming = [Seg [0x34, 0x56, 0x78, 0x73]], can_send = True, sent = []\<rparr>)
   \<and> ReadFrame 65536
     (Some \<lparr>incoming = [Seg (WriteFrame_frame [0x61])], can_send = True, sent = []\<rparr>)
     \<noteq> Inr ([0x61], Some \<lparr>incoming = [Seg [0x34, 0x56, 0x78, 0x73]], can_send = True, sent = []\<rparr>)
   \<and> ReadFrame 65536
     (Some \<lparr>incoming = [Seg (take 1 (WriteFrame_frame [0x61])),
                          Seg (drop 1 (WriteFrame_frame [0x61]))],
            can_send = True, sent = []\<rparr>)
     = Inr ([], Some \<lparr>incoming = [Seg [0x81, 0x12, 0x34, 0x56, 0x78, 0x73]],
                        can_send = True, sent = []\<rparr>)"
proof -
  have f: "WriteFrame_frame [0x61] = [0x81, 0x81, 0x12, 0x34, 0x56, 0x78, 0x73]"
    by (simp add: WriteFrame_frame_def WriteFrame_mask.simps mask_key_def)
  have 1: "ReadFrame 65536
     (Some \<lparr>incoming = [Seg [0x81, 0x81, 0x12, 0x34, 0x56, 0x78, 0x73]],
            can_send = True, sent = []\<rparr>)
     = Inr ([0x12], Some \<lparr>incoming = [Seg [0x34, 0x56, 0x78, 0x73]], can_send = True, sent = []\<rparr>)"
    by (simp add: ReadFrame_def recv_def ReadFrame_payload_def ReadFrame_loop.simps
        int_cast_def store_def)
  have 2: "ReadFrame 65536
     (Some \<lparr>incoming = [Seg [0x81], Seg [0x81, 0x12, 0x34, 0x56, 0x78, 0x73]],
            can_send = True, sent = []\<rparr>)
     = Inr ([], Some \<lparr>incoming = [Seg [0x81, 0x12, 0x34, 0x56, 0x78, 0x73]],
                        can_send = True, sent = []\<rparr>)"
    by (simp add: ReadFrame_def recv_def)
  from 1 2 show ?thesis by (simp add: f)
qed

text \<open>
  A read of the two header bytes that does not return 2 (closed stream, error,
  invalid handle, or one byte only) gives the empty result, and so does a short read of
  an extended length. A declared length beyond \<open>max_size\<close> makes
  \<^verbatim>\<open>payload.resize\<close> throw.
\<close>

lemma ReadFrame_short_header:
  assumes "recv h 2 = (received, header, h1)" "received \<noteq> 2"
  shows "ReadFrame max_size h = Inr ([], h1)"
  using assms by (simp add: ReadFrame_def)

lemma ReadFrame_closed_stream:
  "ReadFrame max_size (Some (s\<lparr>incoming := []\<rparr>)) = Inr ([], Some (s\<lparr>incoming := []\<rparr>))"
  by (simp add: ReadFrame_def recv_def)

lemma ReadFrame_short_len16:
  "ReadFrame max_size (Some (s\<lparr>incoming := [Seg [0x81, 0x7E, 0x01]]\<rparr>))
     = Inr ([], Some (s\<lparr>incoming := []\<rparr>))"
  by (simp add: ReadFrame_def recv_def)

lemma ReadFrame_length_error:
  assumes "max_size < 2 ^ 64 - 1"
  shows "ReadFrame max_size
     (Some (s\<lparr>incoming := [Seg [0x81, 0x7F, 0xFF, 0xFF, 0xFF, 0xFF, 0xFF, 0xFF, 0xFF, 0xFF]]\<rparr>))
     = Inl LengthError"
proof -
  have "ReadFrame_len64 [0xFF, 0xFF, 0xFF, 0xFF, 0xFF, 0xFF, 0xFF, 0xFF] = - 1"
    by (simp add: ReadFrame_len64_def)
  moreover have "unat (- 1 :: 64 word) = 2 ^ 64 - 1"
    by (simp add: unsigned_minus_1_eq_mask mask_eq_exp_minus_1)
  ultimately show ?thesis
    using assms by (simp add: ReadFrame_def recv_def ReadFrame_payload_def)
qed

text \<open>
  Once the length is known, the result has that length whatever the stream delivers:
  the bytes that never arrived are the zero bytes of \<^verbatim>\<open>resize\<close>.
\<close>

lemma int_cast_le: "int_cast m \<le> int m"
proof -
  have "signed_take_bit 31 (int m) \<le> take_bit (Suc 31) (int m)"
    by (simp only: signed_take_bit_eq_take_bit_minus) simp
  also have "\<dots> \<le> int m" by (simp add: take_bit_int_less_eq_self_iff)
  finally show ?thesis by (simp add: int_cast_def signed_of_nat)
qed

lemma recv_count:
  assumes "recv h len = (received, bs, h')" "0 < received"
  shows "received = int (length bs)" "received \<le> len"
  using assms
  by (auto simp add: recv_def Let_def split: option.splits if_splits list.splits event.splits)

lemma length_store:
  assumes "off + length bs \<le> length buf"
  shows "length (store buf off bs) = length buf"
  using assms by (simp add: store_def)

lemma ReadFrame_loop_length:
  assumes "length payload = payloadLen" "totalReceived \<le> payloadLen"
  shows "length (fst (ReadFrame_loop payloadLen totalReceived payload h)) = payloadLen"
  using assms
proof (induction payloadLen totalReceived payload h rule: ReadFrame_loop.induct)
  case (1 payloadLen totalReceived payload h)
  show ?case
  proof (cases "totalReceived < payloadLen")
    case False
    then show ?thesis using "1.prems" by (subst ReadFrame_loop.simps) simp
  next
    case True
    obtain received bs h' where
      r: "recv h (int_cast (payloadLen - totalReceived)) = (received, bs, h')"
      by (cases "recv h (int_cast (payloadLen - totalReceived))") auto
    show ?thesis
    proof (cases "received \<le> 0")
      case True
      with r \<open>totalReceived < payloadLen\<close> "1.prems" show ?thesis
        by (subst ReadFrame_loop.simps) simp
    next
      case False
      then have p: "0 < received" by simp
      from recv_count [OF r p] int_cast_le [of "payloadLen - totalReceived"]
      have b: "received = int (length bs)" "length bs \<le> payloadLen - totalReceived" by simp_all
      then have s: "length (store payload totalReceived bs) = payloadLen"
        using "1.prems" True by (simp add: length_store)
      have t: "totalReceived + nat received \<le> payloadLen" using b True by simp
      from "1.IH" [OF True r [symmetric] refl False s t] r True False
      show ?thesis by (subst ReadFrame_loop.simps) simp
    qed
  qed
qed

lemma ReadFrame_payload_length:
  assumes "ReadFrame_payload max_size payloadLen h = Inr (message, h')"
  shows "length message = unat payloadLen"
  using assms ReadFrame_loop_length [of "replicate (unat payloadLen) 0" "unat payloadLen" 0 h]
  by (auto simp add: ReadFrame_payload_def split: if_splits prod.splits)

text \<open>
  C3. The peer announces 5 payload bytes, sends 2 and closes. The header reads succeed;
  in the payload loop the second \<^verbatim>\<open>recv\<close> returns 0 and the loop breaks. The function
  then returns the buffer it had resized to 5 bytes: the 2 bytes received and 3 zero
  bytes, not the empty string.
\<close>

theorem ReadFrame_short_payload_returns_partial:
  "ReadFrame 65536
     (Some \<lparr>incoming = [Seg [0x81, 0x05, 0x61, 0x62]], can_send = True, sent = []\<rparr>)
     = Inr ([0x61, 0x62, 0, 0, 0], Some \<lparr>incoming = [], can_send = True, sent = []\<rparr>)"
  by (simp add: ReadFrame_def recv_def ReadFrame_payload_def ReadFrame_loop.simps
      int_cast_def store_def numeral_3_eq_3)

text \<open>
  C4. The frame vector of \<^verbatim>\<open>WriteFrame\<close> is the frame of the specification for the key
  \<open>0x12 0x34 0x56 0x78\<close>: byte \<open>0x81\<close>, the length field of the class of the payload
  length with the mask bit set, the key, and the payload with byte \<open>i\<close> XORed with key
  byte \<open>i mod 4\<close>. The call hands the whole vector to \<^verbatim>\<open>send\<close> when its size fits the
  \<^verbatim>\<open>int\<close> length argument.
\<close>

theorem WriteFrame_emits_masked_frame:
  "(length dat < 2 ^ 64 \<longrightarrow> WriteFrame_frame dat = spec_Encode mask_key dat)
   \<and> (length dat + 14 < 2 ^ 31 \<and> can_send s \<longrightarrow>
        WriteFrame dat (Some s)
          = (True, Some (s\<lparr>sent := sent s @ [spec_Encode mask_key dat]\<rparr>)))"
  using WriteFrame_frame_spec [of dat] WriteFrame_sends_frame [of dat s] by blast

theorem WriteFrame_emits_masked_frame_witness:
  "length [0x61, 0x62 :: byte] < 2 ^ 64
   \<and> WriteFrame_frame [0x61, 0x62] = [0x81, 0x82, 0x12, 0x34, 0x56, 0x78, 0x73, 0x56]
   \<and> length [0x61, 0x62 :: byte] + 14 < 2 ^ 31
   \<and> can_send \<lparr>incoming = [], can_send = True, sent = []\<rparr>
   \<and> WriteFrame [0x61, 0x62] (Some \<lparr>incoming = [], can_send = True, sent = []\<rparr>)
       = (True, Some \<lparr>incoming = [], can_send = True,
                        sent = [[0x81, 0x82, 0x12, 0x34, 0x56, 0x78, 0x73, 0x56]]\<rparr>)"
proof -
  have h: "length [0x61, 0x62 :: byte] < 2 ^ 64" "length [0x61, 0x62 :: byte] + 14 < 2 ^ 31"
    "can_send \<lparr>incoming = [], can_send = True, sent = []\<rparr>" by simp_all
  have e: "spec_Encode mask_key [0x61, 0x62] = [0x81, 0x82, 0x12, 0x34, 0x56, 0x78, 0x73, 0x56]"
    by (simp add: spec_Encode_def spec_length_field_def spec_masked_def mask_key_def
        upt_rec [of 0] upt_rec [of 1] upt_rec [of 2] numeral_2_eq_2)
  from WriteFrame_emits_masked_frame [of "[0x61, 0x62]"
      "\<lparr>incoming = [], can_send = True, sent = []\<rparr>"]
  show ?thesis using h by (simp add: e)
qed

section \<open>The handshake\<close>

lemma strstr_sublist: "strstr hay needle \<longleftrightarrow> sublist needle hay"
  by (induction hay) (auto simp: sublist_Cons_right)

lemma length_base64_loop:
  "length (base64_loop key i encodedKey)
     = length encodedKey + 4 * ((length key - i + 2) div 3)"
proof (induction "length key - i" arbitrary: i encodedKey rule: less_induct)
  case less
  show ?case
  proof (cases "i < length key")
    case True
    then have d: "length key - (i + 3) < length key - i" by simp
    have e: "(length key - i + 2) div 3 = Suc ((length key - (i + 3) + 2) div 3)"
      using True by presburger
    have IH: "length (base64_loop key (i + 3) acc)
        = length acc + 4 * ((length key - (i + 3) + 2) div 3)" for acc
      by (rule less [OF d])
    show ?thesis
      by (subst base64_loop.simps) (simp only: True if_True Let_def IH e, simp)
  next
    case False
    then show ?thesis by (subst base64_loop.simps) simp
  qed
qed

lemma length_handshake_request:
  "length (handshake_request path encodedKey) = length path + length encodedKey + 123"
  by (simp add: handshake_request_def CRLF_def)


lemma request_fits_int:
  assumes "length path < 2 ^ 30"
  shows "int_cast (length (handshake_request path (base64_loop (map rng [0..<16]) 0 [])))
           = int (length (handshake_request path (base64_loop (map rng [0..<16]) 0 [])))"
proof -
  have "length (handshake_request path (base64_loop (map rng [0..<16]) 0 []))
      = length path + 147"
    by (simp add: length_handshake_request length_base64_loop)
  also have "\<dots> < 2 ^ 30 + 2 ^ 30" using assms by simp
  also have "(2::nat) ^ 30 + 2 ^ 30 = 2 ^ 31" by simp
  finally show ?thesis by (rule int_cast_small)
qed



lemma PerformHandshake_reply:
  assumes "m_socket st = Some s" "can_send s" "length path < 2 ^ 30"
    "incoming s = Seg bs # es" "bs \<noteq> []"
  shows "PerformHandshake rng path st =
     (sublist (to_bytes ''101'') (c_str (take 1023 bs)),
      st\<lparr>m_socket := Some (s\<lparr>
          incoming := rest_of (drop 1023 bs) es,
          sent := sent s @
            [to_bytes (handshake_request path (base64_loop (map rng [0..<16]) 0 []))]\<rparr>)\<rparr>)"
proof -
  let ?req = "handshake_request path (base64_loop (map rng [0..<16]) 0 [])"
  let ?s1 = "s\<lparr>sent := sent s @ [to_bytes ?req]\<rparr>"
  have t: "take (length ?req) (to_bytes ?req) = to_bytes ?req" by (simp add: to_bytes_def)
  have sd: "send (m_socket st) (to_bytes ?req) (int_cast (length ?req))
      = (int (length ?req), Some ?s1)"
    using assms(1,2) by (simp add: send_def request_fits_int [OF assms(3)] t)
  have ne: "int (length ?req) \<noteq> - 1" by simp
  have k: "\<not> int (min 1023 (length bs)) \<le> 0" using assms(5) by simp
  have rv: "recv (Some ?s1) 1023
      = (int (min 1023 (length bs)), take 1023 bs,
         Some (?s1\<lparr>incoming := rest_of (drop 1023 bs) es\<rparr>))"
    using assms(4) by (auto simp add: recv_def Let_def rest_of_def min_def)
  show ?thesis
    unfolding PerformHandshake_def Let_def sd
    by (simp only: ne rv k if_False split strstr_sublist) simp
qed

lemma send_handle:
  assumes "send h buf len = (r, h')"
  shows "(h' = None \<longleftrightarrow> h = None) \<and> (h = None \<longrightarrow> r = - 1)
    \<and> (\<forall>s. h = Some s \<longrightarrow> (\<exists>s'. h' = Some s' \<and> incoming s' = incoming s))"
  using assms by (cases h) (auto simp add: send_def split: if_splits)

lemma recv_handle:
  assumes "recv h n = (r, b, h')"
  shows "h' = None \<longleftrightarrow> h = None"
  using assms
  by (cases h) (auto simp add: recv_def Let_def split: if_splits list.splits event.splits)






lemma PerformHandshake_frame:
  assumes "PerformHandshake rng path st = (ok, st')"
  shows "st' = st\<lparr>m_socket := m_socket st'\<rparr> \<and> (m_socket st' = None \<longleftrightarrow> m_socket st = None)
    \<and> (ok \<longrightarrow> m_socket st' \<noteq> None)"
proof -
  let ?req = "handshake_request path (base64_loop (map rng [0..<16]) 0 [])"
  obtain r h1 where sd: "send (m_socket st) (to_bytes ?req) (int_cast (length ?req)) = (r, h1)"
    by (cases "send (m_socket st) (to_bytes ?req) (int_cast (length ?req))") auto
  obtain rr b h2 where rv: "recv h1 1023 = (rr, b, h2)"
    by (cases "recv h1 1023") auto
  note sh = send_handle [OF sd] and rh = recv_handle [OF rv]
  show ?thesis
  proof (cases "r = - 1")
    case True
    with assms sh show ?thesis
      unfolding PerformHandshake_def Let_def sd by auto
  next
    case False
    with sh have n: "h1 \<noteq> None" "m_socket st \<noteq> None" by auto
    with rh have "h2 \<noteq> None" by simp
    with assms False n show ?thesis
      unfolding PerformHandshake_def Let_def sd by (auto simp add: rv split: if_splits)
  qed
qed


section \<open>Connect\<close>

lemma ConnectSocket_frame:
  assumes "ConnectSocket net host port st = (ok, st')" "m_socket st = None"
  shows "st' = st\<lparr>m_socket := m_socket st', open_sockets := open_sockets st'\<rparr>
    \<and> (ok \<longleftrightarrow> m_socket st' \<noteq> None)
    \<and> open_sockets st' = open_sockets st + (if ok then 1 else 0)"
  using assms
  by (auto simp add: ConnectSocket_def socket_created_def closesocket_def
      split: connect_result.splits)

lemma SetState_fields:
  "m_state (SetState x st) = x"
  "state_trace (SetState x st) = state_trace st @ [x]"
  "m_socket (SetState x st) = m_socket st"
  "m_thread (SetState x st) = m_thread st"
  "open_sockets (SetState x st) = open_sockets st"
  by (simp_all add: SetState_def Let_def)

lemma Connect_outcomes:
  assumes "m_socket st = None" "\<not> m_thread st"
  shows "case Connect net rng url room st of
           Inl e \<Rightarrow> e = OutOfRange \<and> parse_url url = Inl OutOfRange
         | Inr (ok, st') \<Rightarrow>
             state_trace st' = state_trace st @ [if ok then Connected else Error]
           \<and> m_state st' = (if ok then Connected else Error)
           \<and> (m_socket st' = None \<longleftrightarrow> \<not> ok)
           \<and> open_sockets st' = open_sockets st + (if ok then 1 else 0)
           \<and> (ok \<longrightarrow> m_running st' \<and> m_thread st')"
proof (cases "parse_url url")
  case (Inl e)
  then have "e = OutOfRange"
    by (auto simp add: parse_url_def stoi_def Let_def
        split: option.splits prod.splits sum.splits if_splits)
  with Inl show ?thesis by (simp add: Connect_def)
next
  case (Inr t)
  then obtain host port path where p: "parse_url url = Inr (host, port, path)"
    by (cases t) auto
  let ?st0 = "st\<lparr>m_room := room, m_serverUrl := url\<rparr>"
  let ?path = "path @ ''?room='' @ room @ ''&role=receiver''"
  obtain ok1 st1 where c: "ConnectSocket net host port ?st0 = (ok1, st1)"
    by (cases "ConnectSocket net host port ?st0") auto
  have m0: "m_socket ?st0 = None" using assms(1) by simp
  note f = ConnectSocket_frame [OF c m0]
  from f have f1: "st1 = ?st0\<lparr>m_socket := m_socket st1, open_sockets := open_sockets st1\<rparr>"
    "ok1 \<longleftrightarrow> m_socket st1 \<noteq> None" by blast+
  from f have "open_sockets st1 = open_sockets ?st0 + (if ok1 then 1 else 0)" by blast
  then have o1: "open_sockets st1 = open_sockets st + (if ok1 then 1 else 0)" by simp
  from f1(1) have "state_trace st1
      = state_trace (?st0\<lparr>m_socket := m_socket st1, open_sockets := open_sockets st1\<rparr>)"
    by (rule arg_cong)
  then have t1: "state_trace st1 = state_trace st" by simp
  from f1(1) have "m_thread st1
      = m_thread (?st0\<lparr>m_socket := m_socket st1, open_sockets := open_sockets st1\<rparr>)"
    by (rule arg_cong)
  then have j1: "\<not> m_thread st1" using assms(2) by simp
  show ?thesis
  proof (cases ok1)
    case False
    with c p f1(2) t1 o1 show ?thesis by (simp add: Connect_def SetState_fields)
  next
    case True
    obtain ok2 st2 where h: "PerformHandshake rng ?path st1 = (ok2, st2)"
      by (cases "PerformHandshake rng ?path st1") auto
    from PerformHandshake_frame [OF h] True f1(2)
    have f2: "st2 = st1\<lparr>m_socket := m_socket st2\<rparr>" "m_socket st2 \<noteq> None" by simp_all
    from f2(1) have "state_trace st2 = state_trace (st1\<lparr>m_socket := m_socket st2\<rparr>)"
      by (rule arg_cong)
    then have t2: "state_trace st2 = state_trace st1" by simp
    from f2(1) have "m_thread st2 = m_thread (st1\<lparr>m_socket := m_socket st2\<rparr>)"
      by (rule arg_cong)
    then have j2: "\<not> m_thread st2" using j1 by simp
    from f2(1) have "open_sockets st2 = open_sockets (st1\<lparr>m_socket := m_socket st2\<rparr>)"
      by (rule arg_cong)
    then have o2: "open_sockets st2 = open_sockets st + 1" using o1 True by simp
    from f2(2) obtain s2 where s2: "m_socket st2 = Some s2" by auto
    show ?thesis
    proof (cases ok2)
      case False
      with True c p h t1 t2 o2 s2 show ?thesis
        by (simp add: Connect_def SetState_fields Let_def closesocket_def)
    next
      case ok: True
      with True c p h t1 t2 o2 s2 j2 show ?thesis
        by (simp add: Connect_def SetState_fields Let_def)
    qed
  qed
qed

lemma parse_url_ws_host: "parse_url ''ws://host:1234/ws'' = Inr (''host'', 1234, ''/ws'')"
  by (simp add: parse_url_def urlRegex_match_def is_host_char_def is_digit_def
      is_line_terminator_def stoi_def digit_value_def Let_def)

lemma parse_url_no_scheme: "parse_url ''host:1234/ws'' = Inr (''localhost'', 8080, ''/'')"
  by (simp add: parse_url_def urlRegex_match_def Let_def)

lemma base64_of_count:
  "base64_loop (map word_of_nat [0..<16]) 0 [] = ''AAECAwQFBgcICQoLDA0ODw==''"
  by code_simp

lemma handshake_request_bytes:
  "to_bytes (handshake_request path key) =
     map of_char (''GET '' @ path @ '' HTTP/1.1'' @ [CHR 0x0D, CHR 0x0A] @
       ''Host: localhost'' @ [CHR 0x0D, CHR 0x0A] @
       ''Upgrade: websocket'' @ [CHR 0x0D, CHR 0x0A] @
       ''Connection: Upgrade'' @ [CHR 0x0D, CHR 0x0A] @
       ''Sec-WebSocket-Key: '' @ key @ [CHR 0x0D, CHR 0x0A] @
       ''Sec-WebSocket-Version: 13'' @ [CHR 0x0D, CHR 0x0A, CHR 0x0D, CHR 0x0A])"
  by (simp add: to_bytes_def handshake_request_def CRLF_def)

lemma Connect_reply:
  assumes "parse_url url = Inr (host, port, path)"
    "net host port = Connects s" "can_send s"
    "incoming s = Seg bs # es" "bs \<noteq> []" "length bs \<le> 1023"
    "length (path @ ''?room='' @ room @ ''&role=receiver'') < 2 ^ 30"
    "\<not> m_thread st"
  shows "Connect net rng url room st =
     (if sublist (to_bytes ''101'') (c_str bs) then
        Inr (True,
          (SetState Connected
            (st\<lparr>m_room := room, m_serverUrl := url,
                open_sockets := open_sockets st + 1,
                m_socket := Some (s\<lparr>
                  incoming := es,
                  sent := sent s @
                    [to_bytes (handshake_request (path @ ''?room='' @ room @ ''&role=receiver'')
                       (base64_loop (map rng [0..<16]) 0 []))]\<rparr>)\<rparr>))
          \<lparr>m_running := True, m_thread := True\<rparr>)
      else
        Inr (False, SetState Error (st\<lparr>m_room := room, m_serverUrl := url, m_socket := None\<rparr>)))"
proof -
  let ?st1 = "st\<lparr>m_room := room, m_serverUrl := url, m_socket := Some s,
      open_sockets := open_sockets st + 1\<rparr>"
  have c: "ConnectSocket net host port (st\<lparr>m_room := room, m_serverUrl := url\<rparr>) = (True, ?st1)"
    using assms(2) by (simp add: ConnectSocket_def socket_created_def)
  have m: "m_socket ?st1 = Some s" by simp
  have t: "take 1023 bs = bs" "drop 1023 bs = []" using assms(6) by simp_all
  from PerformHandshake_reply [OF m assms(3) assms(7) assms(4) assms(5), of rng]
  have h: "PerformHandshake rng (path @ ''?room='' @ room @ ''&role=receiver'') ?st1 =
     (sublist (to_bytes ''101'') (c_str bs), ?st1\<lparr>m_socket := Some (s\<lparr>
          incoming := es,
          sent := sent s @
            [to_bytes (handshake_request (path @ ''?room='' @ room @ ''&role=receiver'')
               (base64_loop (map rng [0..<16]) 0 []))]\<rparr>)\<rparr>)"
    by (simp add: t rest_of_def)
  show ?thesis
    using c h assms(8) unfolding Connect_def Let_def assms(1)
    by (simp add: SetState_fields closesocket_def)
qed

lemma reply_101_has_101:
  "reply_101 \<noteq> []" "length reply_101 \<le> 1023" "sublist (to_bytes ''101'') (c_str reply_101)"
  by (simp_all add: reply_101_def to_bytes_def CRLF_def c_str_def
      strstr_sublist [symmetric])

lemma reply_400_has_no_101:
  "reply_400 \<noteq> []" "length reply_400 \<le> 1023" "\<not> sublist (to_bytes ''101'') (c_str reply_400)"
  by (simp_all add: reply_400_def to_bytes_def CRLF_def c_str_def
      strstr_sublist [symmetric])


lemma Connect_ws_host_roomA:
  assumes "net ''host'' 1234 = Connects s" "can_send s" "incoming s = Seg reply_101 # es"
  shows "Connect net rng ''ws://host:1234/ws'' ''roomA'' SignalingClient_new =
     Inr (True,
          \<lparr>m_socket = Some (s\<lparr>
              incoming := es,
              sent := sent s @
                [to_bytes (handshake_request ''/ws?room=roomA&role=receiver''
                   (base64_loop (map rng [0..<16]) 0 []))]\<rparr>),
           m_thread = True, m_running = True, m_state = Connected,
           m_stateCallback = False,
           m_serverUrl = ''ws://host:1234/ws'', m_room = ''roomA'',
           state_calls = [], state_trace = [Connected], open_sockets = 1\<rparr>)"
proof -
  have l: "length (''/ws'' @ ''?room='' @ ''roomA'' @ ''&role=receiver'') < 2 ^ 30" by simp
  note c = Connect_reply [where url = "''ws://host:1234/ws''" and host = "''host''"
      and port = 1234 and path = "''/ws''" and room = "''roomA''" and net = net and s = s
      and bs = reply_101 and es = es and rng = rng and st = SignalingClient_new]
  have j: "\<not> m_thread SignalingClient_new" by (simp add: SignalingClient_new_def)
  from c [OF parse_url_ws_host assms(1,2,3) reply_101_has_101(1,2) l j] reply_101_has_101(3)
  show ?thesis by (simp add: SetState_def SignalingClient_new_def)
qed

lemma Connect_no_scheme_roomA:
  assumes "net ''localhost'' 8080 = Connects s" "can_send s" "incoming s = Seg reply_101 # es"
  shows "Connect net rng ''host:1234/ws'' ''roomA'' SignalingClient_new =
     Inr (True,
          \<lparr>m_socket = Some (s\<lparr>
              incoming := es,
              sent := sent s @
                [to_bytes (handshake_request ''/?room=roomA&role=receiver''
                   (base64_loop (map rng [0..<16]) 0 []))]\<rparr>),
           m_thread = True, m_running = True, m_state = Connected,
           m_stateCallback = False,
           m_serverUrl = ''host:1234/ws'', m_room = ''roomA'',
           state_calls = [], state_trace = [Connected], open_sockets = 1\<rparr>)"
proof -
  have l: "length (''/'' @ ''?room='' @ ''roomA'' @ ''&role=receiver'') < 2 ^ 30" by simp
  note c = Connect_reply [where url = "''host:1234/ws''" and host = "''localhost''"
      and port = 8080 and path = "''/''" and room = "''roomA''" and net = net and s = s
      and bs = reply_101 and es = es and rng = rng and st = SignalingClient_new]
  have j: "\<not> m_thread SignalingClient_new" by (simp add: SignalingClient_new_def)
  from c [OF parse_url_no_scheme assms(1,2,3) reply_101_has_101(1,2) l j] reply_101_has_101(3)
  show ?thesis by (simp add: SetState_def SignalingClient_new_def)
qed

lemma Connect_refused_roomA:
  "Connect (peer_at ''host'' 1234 reply_400) rng ''ws://host:1234/ws'' ''roomA''
     SignalingClient_new =
     Inr (False, SignalingClient_new\<lparr>m_room := ''roomA'',
            m_serverUrl := ''ws://host:1234/ws'', m_state := Error, state_trace := [Error]\<rparr>)"
proof -
  have l: "length (''/ws'' @ ''?room='' @ ''roomA'' @ ''&role=receiver'') < 2 ^ 30" by simp
  note c = Connect_reply [where url = "''ws://host:1234/ws''" and host = "''host''"
      and port = 1234 and path = "''/ws''" and room = "''roomA''"
      and net = "peer_at ''host'' 1234 reply_400"
      and s = "\<lparr>incoming = [Seg reply_400], can_send = True, sent = []\<rparr>"
      and bs = reply_400 and es = "[]" and rng = rng and st = SignalingClient_new]
  have j: "\<not> m_thread SignalingClient_new" by (simp add: SignalingClient_new_def)
  have p: "peer_at ''host'' 1234 reply_400 ''host'' 1234
      = Connects \<lparr>incoming = [Seg reply_400], can_send = True, sent = []\<rparr>"
    by (simp add: peer_at_def)
  have cs: "can_send \<lparr>incoming = [Seg reply_400], can_send = True, sent = []\<rparr>" by simp
  have i: "incoming \<lparr>incoming = [Seg reply_400], can_send = True, sent = []\<rparr>
      = Seg reply_400 # []" by simp
  from c [OF parse_url_ws_host p cs i reply_400_has_no_101(1,2) l j] reply_400_has_no_101(3)
  show ?thesis by (simp add: SetState_def SignalingClient_new_def)
qed

lemma Connect_connection_refused:
  assumes "parse_url url = Inr (host, port, path)"
  shows "Connect peer_refusing rng url room SignalingClient_new =
     Inr (False, SignalingClient_new\<lparr>m_room := room, m_serverUrl := url,
            m_state := Error, state_trace := [Error]\<rparr>)"
  using assms
  by (simp add: Connect_def ConnectSocket_def socket_created_def closesocket_def
      peer_refusing_def SetState_def SignalingClient_new_def)

lemma Connect_unreachable:
  assumes "parse_url url = Inr (host, port, path)" "net host port = ResolveFails"
  shows "Connect net rng url room SignalingClient_new =
     Inr (False, SignalingClient_new\<lparr>m_room := room, m_serverUrl := url,
            m_state := Error, state_trace := [Error]\<rparr>)"
  using assms
  by (simp add: Connect_def ConnectSocket_def SetState_def SignalingClient_new_def)

text \<open>
  C6, as amended. A call of \<^verbatim>\<open>Connect\<close> that returns, on a client in the initial state
  \<open>Disconnected\<close> (no socket, no receive thread), writes the state once: \<open>Connected\<close>
  when it returns \<^verbatim>\<open>true\<close>, \<open>Error\<close> when it returns \<^verbatim>\<open>false\<close>; \<open>Connecting\<close>
  is never written. On success the client holds the one socket it opened and the receive
  thread is started. On failure the transport is closed: the client holds no socket,
  and every socket that the call opened has been given to \<^verbatim>\<open>closesocket\<close>, so the
  number of open sockets is what it was before the call. A call that does not return
  throws \<^verbatim>\<open>std::out_of_range\<close> from \<^verbatim>\<open>std::stoi\<close>.
\<close>

theorem Connect_writes_state_once:
  assumes "m_state st = Disconnected" "m_socket st = None" "\<not> m_thread st"
  shows "case Connect net rng url room st of
           Inl e \<Rightarrow> e = OutOfRange \<and> parse_url url = Inl OutOfRange
         | Inr (ok, st') \<Rightarrow>
             state_trace st' = state_trace st @ [if ok then Connected else Error]
           \<and> m_state st' = (if ok then Connected else Error)
           \<and> (m_socket st' = None \<longleftrightarrow> \<not> ok)
           \<and> open_sockets st' = open_sockets st + (if ok then 1 else 0)
           \<and> (ok \<longrightarrow> m_running st' \<and> m_thread st')"
  using assms(2,3) by (rule Connect_outcomes)

theorem Connect_writes_state_once_witness:
  "m_state SignalingClient_new = Disconnected \<and> m_socket SignalingClient_new = None
   \<and> \<not> m_thread SignalingClient_new
   \<and> Connect_trace (peer_at ''host'' 1234 reply_101) word_of_nat ''ws://host:1234/ws''
        ''roomA'' SignalingClient_new = Inr (True, [Connected])
   \<and> Connect_sockets (peer_at ''host'' 1234 reply_101) word_of_nat ''ws://host:1234/ws''
        ''roomA'' SignalingClient_new = Inr (True, True, 1)
   \<and> Connect_trace (peer_at ''host'' 1234 reply_400) word_of_nat ''ws://host:1234/ws''
        ''roomA'' SignalingClient_new = Inr (False, [Error])
   \<and> Connect_sockets (peer_at ''host'' 1234 reply_400) word_of_nat ''ws://host:1234/ws''
        ''roomA'' SignalingClient_new = Inr (False, False, 0)
   \<and> Connect_trace peer_refusing word_of_nat ''ws://host:1234/ws''
        ''roomA'' SignalingClient_new = Inr (False, [Error])
   \<and> Connect_sockets peer_refusing word_of_nat ''ws://host:1234/ws''
        ''roomA'' SignalingClient_new = Inr (False, False, 0)"
proof -
  have h: "m_state SignalingClient_new = Disconnected" "m_socket SignalingClient_new = None"
    "\<not> m_thread SignalingClient_new"
    by (simp_all add: SignalingClient_new_def)
  have n: "state_trace SignalingClient_new = []" "open_sockets SignalingClient_new = 0"
    by (simp_all add: SignalingClient_new_def)
  obtain st1 where 1: "Connect (peer_at ''host'' 1234 reply_101) word_of_nat
      ''ws://host:1234/ws'' ''roomA'' SignalingClient_new = Inr (True, st1)"
    using Connect_ws_host_roomA [where net = "peer_at ''host'' 1234 reply_101"
        and s = "\<lparr>incoming = [Seg reply_101], can_send = True, sent = []\<rparr>" and es = "[]"
        and rng = word_of_nat]
    by (simp add: peer_at_def)
  obtain st2 where 2: "Connect (peer_at ''host'' 1234 reply_400) word_of_nat
      ''ws://host:1234/ws'' ''roomA'' SignalingClient_new = Inr (False, st2)"
    using Connect_refused_roomA [where rng = word_of_nat] by simp
  from Connect_writes_state_once [OF h, where net = "peer_at ''host'' 1234 reply_101"
      and rng = word_of_nat and url = "''ws://host:1234/ws''" and room = "''roomA''"]
  have a: "state_trace st1 = [Connected]" "m_socket st1 \<noteq> None" "open_sockets st1 = 1"
    by (simp_all add: 1 n)
  from Connect_writes_state_once [OF h, where net = "peer_at ''host'' 1234 reply_400"
      and rng = word_of_nat and url = "''ws://host:1234/ws''" and room = "''roomA''"]
  have b: "state_trace st2 = [Error]" "m_socket st2 = None" "open_sockets st2 = 0"
    by (simp_all add: 2 n)
  obtain st3 where 3: "Connect peer_refusing word_of_nat
      ''ws://host:1234/ws'' ''roomA'' SignalingClient_new = Inr (False, st3)"
    using Connect_connection_refused [OF parse_url_ws_host, where rng = word_of_nat] by simp
  from Connect_writes_state_once [OF h, where net = peer_refusing
      and rng = word_of_nat and url = "''ws://host:1234/ws''" and room = "''roomA''"]
  have c: "state_trace st3 = [Error]" "m_socket st3 = None" "open_sockets st3 = 0"
    by (simp_all add: 3 n)
  from a b c h show ?thesis by (simp add: Connect_trace_def Connect_sockets_def 1 2 3)
qed

text \<open>
  A successful call: the only state written is \<open>Connected\<close>; the client does not pass
  through \<open>Connecting\<close>.
\<close>

theorem Connect_skips_Connecting_counterexample:
  "Connect_trace (peer_at ''host'' 1234 reply_101) word_of_nat ''ws://host:1234/ws''
     ''roomA'' SignalingClient_new = Inr (True, [Connected])
   \<and> Connect_trace (peer_at ''host'' 1234 reply_101) word_of_nat ''ws://host:1234/ws''
     ''roomA'' SignalingClient_new \<noteq> Inr (True, [Connecting, Connected])"
proof -
  have p: "peer_at ''host'' 1234 reply_101 ''host'' 1234
      = Connects \<lparr>incoming = [Seg reply_101], can_send = True, sent = []\<rparr>"
    by (simp add: peer_at_def)
  show ?thesis
    using Connect_ws_host_roomA [where net = "peer_at ''host'' 1234 reply_101"
        and s = "\<lparr>incoming = [Seg reply_101], can_send = True, sent = []\<rparr>" and es = "[]" and rng = word_of_nat]
    by (simp add: Connect_trace_def peer_at_def)
qed

text \<open>
  C8, as amended. Called with the address \<^verbatim>\<open>ws://host:1234/ws\<close> and the room
  \<^verbatim>\<open>roomA\<close>, \<^verbatim>\<open>Connect\<close> connects to host \<^verbatim>\<open>host\<close>, port 1234, and sends one
  buffer: the request that starts with the line
  \<^verbatim>\<open>GET /ws?room=roomA&role=receiver HTTP/1.1\<close>, followed by the five header lines
  and an empty line, where the key is the encoding of the sixteen random bytes. When the
  peer replies \<^verbatim>\<open>HTTP/1.1 101 Switching Protocols\<close> the state becomes \<open>Connected\<close>.
\<close>

theorem Connect_request_path:
  assumes "net ''host'' 1234 = Connects s" "can_send s" "incoming s = Seg reply_101 # es"
  shows "Connect net rng ''ws://host:1234/ws'' ''roomA'' SignalingClient_new =
     Inr (True,
          \<lparr>m_socket = Some (s\<lparr>
              incoming := es,
              sent := sent s @
                [map of_char
                   (''GET /ws?room=roomA&role=receiver HTTP/1.1'' @ [CHR 0x0D, CHR 0x0A] @
                    ''Host: localhost'' @ [CHR 0x0D, CHR 0x0A] @
                    ''Upgrade: websocket'' @ [CHR 0x0D, CHR 0x0A] @
                    ''Connection: Upgrade'' @ [CHR 0x0D, CHR 0x0A] @
                    ''Sec-WebSocket-Key: '' @ base64_loop (map rng [0..<16]) 0 []
                      @ [CHR 0x0D, CHR 0x0A] @
                    ''Sec-WebSocket-Version: 13'' @ [CHR 0x0D, CHR 0x0A] @
                    [CHR 0x0D, CHR 0x0A])]\<rparr>),
           m_thread = True, m_running = True, m_state = Connected,
           m_stateCallback = False,
           m_serverUrl = ''ws://host:1234/ws'', m_room = ''roomA'',
           state_calls = [], state_trace = [Connected], open_sockets = 1\<rparr>)"
  using Connect_ws_host_roomA [where net = net and s = s and es = es and rng = rng, OF assms]
  by (simp add: handshake_request_bytes)

theorem Connect_request_path_witness:
  "peer_at ''host'' 1234 reply_101 ''host'' 1234
      = Connects \<lparr>incoming = [Seg reply_101], can_send = True, sent = []\<rparr>
   \<and> can_send \<lparr>incoming = [Seg reply_101], can_send = True, sent = []\<rparr>
   \<and> incoming \<lparr>incoming = [Seg reply_101], can_send = True, sent = []\<rparr> = Seg reply_101 # []
   \<and> Connect_sent (peer_at ''host'' 1234 reply_101) word_of_nat ''ws://host:1234/ws''
        ''roomA'' SignalingClient_new
      = Inr (True,
          [map of_char
             (''GET /ws?room=roomA&role=receiver HTTP/1.1'' @ [CHR 0x0D, CHR 0x0A] @
              ''Host: localhost'' @ [CHR 0x0D, CHR 0x0A] @
              ''Upgrade: websocket'' @ [CHR 0x0D, CHR 0x0A] @
              ''Connection: Upgrade'' @ [CHR 0x0D, CHR 0x0A] @
              ''Sec-WebSocket-Key: AAECAwQFBgcICQoLDA0ODw=='' @ [CHR 0x0D, CHR 0x0A] @
              ''Sec-WebSocket-Version: 13'' @ [CHR 0x0D, CHR 0x0A] @
              [CHR 0x0D, CHR 0x0A])])
   \<and> Connect_trace (peer_at ''host'' 1234 reply_101) word_of_nat ''ws://host:1234/ws''
        ''roomA'' SignalingClient_new = Inr (True, [Connected])"
proof -
  have p: "peer_at ''host'' 1234 reply_101 ''host'' 1234
      = Connects \<lparr>incoming = [Seg reply_101], can_send = True, sent = []\<rparr>"
    by (simp add: peer_at_def)
  have c: "can_send \<lparr>incoming = [Seg reply_101], can_send = True, sent = []\<rparr>" by simp
  have i: "incoming \<lparr>incoming = [Seg reply_101], can_send = True, sent = []\<rparr>
      = Seg reply_101 # []" by simp
  from Connect_request_path [where net = "peer_at ''host'' 1234 reply_101"
        and s = "\<lparr>incoming = [Seg reply_101], can_send = True, sent = []\<rparr>" and es = "[]"
        and rng = word_of_nat, OF p c i]
  show ?thesis using p by (simp add: Connect_sent_def Connect_trace_def base64_of_count)
qed

text \<open>
  The address \<^verbatim>\<open>host:1234/ws\<close> has no \<^verbatim>\<open>ws://\<close> in front and does not match the
  pattern: the defaults stay. The client connects to \<^verbatim>\<open>localhost\<close>, port 8080, and
  its request starts with the line \<^verbatim>\<open>GET /?room=roomA&role=receiver HTTP/1.1\<close>; a peer
  at \<^verbatim>\<open>host\<close>, port 1234, is never contacted.
\<close>

theorem Connect_address_without_scheme_counterexample:
  "Connect_sent (peer_at ''localhost'' 8080 reply_101) word_of_nat ''host:1234/ws''
     ''roomA'' SignalingClient_new
     = Inr (True,
         [map of_char
            (''GET /?room=roomA&role=receiver HTTP/1.1'' @ [CHR 0x0D, CHR 0x0A] @
             ''Host: localhost'' @ [CHR 0x0D, CHR 0x0A] @
             ''Upgrade: websocket'' @ [CHR 0x0D, CHR 0x0A] @
             ''Connection: Upgrade'' @ [CHR 0x0D, CHR 0x0A] @
             ''Sec-WebSocket-Key: AAECAwQFBgcICQoLDA0ODw=='' @ [CHR 0x0D, CHR 0x0A] @
             ''Sec-WebSocket-Version: 13'' @ [CHR 0x0D, CHR 0x0A] @
             [CHR 0x0D, CHR 0x0A])])
   \<and> Connect_sent (peer_at ''host'' 1234 reply_101) word_of_nat ''host:1234/ws''
     ''roomA'' SignalingClient_new = Inr (False, [])"
proof -
  have 1: "Connect_sent (peer_at ''localhost'' 8080 reply_101) word_of_nat ''host:1234/ws''
     ''roomA'' SignalingClient_new
     = Inr (True,
         [map of_char
            (''GET /?room=roomA&role=receiver HTTP/1.1'' @ [CHR 0x0D, CHR 0x0A] @
             ''Host: localhost'' @ [CHR 0x0D, CHR 0x0A] @
             ''Upgrade: websocket'' @ [CHR 0x0D, CHR 0x0A] @
             ''Connection: Upgrade'' @ [CHR 0x0D, CHR 0x0A] @
             ''Sec-WebSocket-Key: AAECAwQFBgcICQoLDA0ODw=='' @ [CHR 0x0D, CHR 0x0A] @
             ''Sec-WebSocket-Version: 13'' @ [CHR 0x0D, CHR 0x0A] @
             [CHR 0x0D, CHR 0x0A])])"
    using Connect_no_scheme_roomA [where net = "peer_at ''localhost'' 8080 reply_101"
        and s = "\<lparr>incoming = [Seg reply_101], can_send = True, sent = []\<rparr>" and es = "[]"
        and rng = word_of_nat]
    by (simp add: Connect_sent_def base64_of_count peer_at_def handshake_request_bytes)
  have "peer_at ''host'' 1234 reply_101 ''localhost'' 8080 = ResolveFails"
    by (simp add: peer_at_def)
  from Connect_unreachable [where net = "peer_at ''host'' 1234 reply_101"
      and rng = word_of_nat and room = "''roomA''", OF parse_url_no_scheme this]
  have 2: "Connect_sent (peer_at ''host'' 1234 reply_101) word_of_nat ''host:1234/ws''
     ''roomA'' SignalingClient_new = Inr (False, [])"
    by (simp add: Connect_sent_def SignalingClient_new_def)
  from 1 2 show ?thesis by (rule conjI)
qed




end
